theory Spec2Isabelle
  imports Complex_Main "HOL-Library.Word"
begin

unbundle bit_operations_syntax

section \<open>Data model\<close>

text \<open>
  The service of \<^verbatim>\<open>main.py\<close> works on \<^verbatim>\<open>bytes\<close> objects (uploads, digests, the
  trailer), on numpy arrays of dtype \<^verbatim>\<open>uint8\<close> and shape (height, width, 3), and on Python
  lists of Python integers (the bit sequences). Bytes and channel values are 8-bit words,
  bit sequences are lists of unbounded integers, as \<^verbatim>\<open>int(...)\<close> makes them.
\<close>

type_synonym byte = "8 word"

type_synonym pixel = "byte \<times> byte \<times> byte"

text \<open>
  An array as \<^verbatim>\<open>np.array(im, dtype=np.uint8)\<close> returns it: its \<^verbatim>\<open>shape\<close> (height, width)
  and its pixels in row-major order, which is the view \<^verbatim>\<open>arr.reshape(-1, 3)\<close>.
  \<^verbatim>\<open>flat.reshape(arr.shape)\<close> puts a pixel list back under the same shape.
\<close>

record rgb_array =
  shape :: "nat \<times> nat"
  pixels :: "pixel list"

text \<open>\<^verbatim>\<open>arr.tobytes()\<close>: row-major, channels R, G, B within a pixel.\<close>

definition tobytes :: "rgb_array \<Rightarrow> byte list" where
  "tobytes arr = concat (map (\<lambda>(r, g, b). [r, g, b]) (pixels arr))"

text \<open>
  What the source raises. \<open>HTTPException status detail\<close> is FastAPI's exception,
  \<open>IndexError\<close> an index out of range (a list or a numpy row), \<open>ValueError\<close> what
  \<^verbatim>\<open>bytearray.append\<close> raises outside \<^verbatim>\<open>range(256)\<close>, and \<open>ImageError msg\<close> an exception
  of the image library with \<^verbatim>\<open>str(e) = msg\<close>.
\<close>

datatype error = HTTPException nat string | IndexError | ValueError | ImageError string

text \<open>
  The library calls the service is built on, taken as parameters: the two image helpers
  (\<^verbatim>\<open>PIL\<close> decoding to an RGB array with the format name, and encoding an array in a
  format), \<^verbatim>\<open>hashlib.sha256(...).digest()\<close> and \<^verbatim>\<open>base64.b64encode(...).decode("ascii")\<close>.
  Decoding and encoding may raise; \<open>Inl msg\<close> carries the exception's text.
\<close>

record collaborators =
  image_bytes_to_rgb_array :: "byte list \<Rightarrow> string + (rgb_array \<times> string)"
  rgb_array_to_image_bytes :: "rgb_array \<Rightarrow> string \<Rightarrow> string + byte list"
  sha256 :: "byte list \<Rightarrow> byte list"
  b64encode :: "byte list \<Rightarrow> string"

section \<open>Constants\<close>

definition HASH_BITS :: nat where
  "HASH_BITS = 256"

definition NUM_PIXELS :: nat where
  "NUM_PIXELS = HASH_BITS"

definition APPENDED_BYTES :: nat where
  "APPENDED_BYTES = HASH_BITS div 8"

definition MIN_BITS :: nat where
  "MIN_BITS = 6144"

definition MIN_BYTES :: nat where
  "MIN_BYTES = MIN_BITS div 8"

section \<open>The for loop\<close>

text \<open>
  A \<^verbatim>\<open>for\<close> loop over a list of indices with a state; the first exception raised by the
  body ends the loop and is the result.
\<close>

fun for_loop :: "('i \<Rightarrow> 's \<Rightarrow> error + 's) \<Rightarrow> 'i list \<Rightarrow> 's \<Rightarrow> error + 's" where
  "for_loop body [] s = Inr s"
| "for_loop body (i # is) s =
     (case body i s of Inl e \<Rightarrow> Inl e | Inr s' \<Rightarrow> for_loop body is s')"

section \<open>Bit packing\<close>

text \<open>
  \<^verbatim>\<open>pack_bits_to_bytes\<close>. The inner loop body is
  \<^verbatim>\<open>byte = (byte << 1) | int(bit_list[i + j])\<close>; the index \<^verbatim>\<open>i + j\<close> is never negative, so
  the access raises IndexError exactly when it is beyond the list.
\<close>

definition pack_bit :: "int list \<Rightarrow> nat \<Rightarrow> nat \<Rightarrow> int \<Rightarrow> error + int" where
  "pack_bit bit_list i j byte =
     (if i + j < length bit_list then Inr (push_bit 1 byte OR bit_list ! (i + j))
      else Inl IndexError)"

text \<open>
  The outer loop body: \<^verbatim>\<open>byte = 0\<close>, the inner loop over \<^verbatim>\<open>range(8)\<close>, then
  \<^verbatim>\<open>b.append(byte)\<close>, which raises ValueError unless \<^verbatim>\<open>0 <= byte < 256\<close>.
\<close>

definition pack_byte :: "int list \<Rightarrow> nat \<Rightarrow> byte list \<Rightarrow> error + byte list" where
  "pack_byte bit_list i b =
     (case for_loop (pack_bit bit_list i) [0..<8] 0 of
        Inl e \<Rightarrow> Inl e
      | Inr byte \<Rightarrow>
          (if 0 \<le> byte \<and> byte < 256 then Inr (b @ [word_of_int byte]) else Inl ValueError))"

text \<open>\<^verbatim>\<open>range(0, n, 8)\<close>: the multiples of 8 below \<open>n\<close>.\<close>

definition range_step8 :: "nat \<Rightarrow> nat list" where
  "range_step8 n = map (\<lambda>k. 8 * k) [0..<(n + 7) div 8]"

definition pack_bits_to_bytes :: "int list \<Rightarrow> error + byte list" where
  "pack_bits_to_bytes bit_list =
     for_loop (pack_byte bit_list) (range_step8 (length bit_list)) []"

text \<open>
  \<^verbatim>\<open>unpack_bytes_to_bits\<close>. Iterating over \<^verbatim>\<open>bytes\<close> gives integers in 0..255;
  \<^verbatim>\<open>reversed(range(8))\<close> is 7, 6, ..., 0 and each bit is \<^verbatim>\<open>(byte >> i) & 1\<close>.
  \<^verbatim>\<open>expected_bits\<close> is \<^verbatim>\<open>None\<close> or a count that is not negative (the callers pass
  \<^verbatim>\<open>HASH_BITS\<close>), so \<^verbatim>\<open>bits[:expected_bits]\<close> is a prefix.
\<close>

definition byte_bits :: "byte \<Rightarrow> int list" where
  "byte_bits byte = map (\<lambda>i. drop_bit i (uint byte) AND 1) (rev [0..<8])"

definition unpack_bytes_to_bits :: "byte list \<Rightarrow> nat option \<Rightarrow> int list" where
  "unpack_bytes_to_bits bts expected_bits =
     (let bits = concat (map byte_bits bts)
      in (case expected_bits of None \<Rightarrow> bits | Some n \<Rightarrow> take n bits))"

section \<open>Folding a pixel, and embedding, extracting and restoring the first pixels\<close>

text \<open>
  \<^verbatim>\<open>r, g, b = map(int, flat[i]); val = (r << 16) | (g << 8) | b\<close> and the way back,
  \<^verbatim>\<open>[(new_val >> 16) & 0xFF, (new_val >> 8) & 0xFF, new_val & 0xFF]\<close>, stored into the
  \<^verbatim>\<open>uint8\<close> row (each component is below 256).
\<close>

definition fold_rgb :: "pixel \<Rightarrow> int" where
  "fold_rgb p = (case p of (r, g, b) \<Rightarrow> push_bit 16 (uint r) OR push_bit 8 (uint g) OR uint b)"

definition unfold_rgb :: "int \<Rightarrow> pixel" where
  "unfold_rgb v =
     (word_of_int (drop_bit 16 v AND 255), word_of_int (drop_bit 8 v AND 255),
      word_of_int (v AND 255))"

text \<open>
  The body of the embedding loop of \<^verbatim>\<open>secure_image\<close>. The state is the pixel list \<^verbatim>\<open>flat\<close>
  and the list \<^verbatim>\<open>original_lsb_bits\<close>. \<^verbatim>\<open>flat[i]\<close> raises IndexError beyond the last pixel,
  \<^verbatim>\<open>digest_bits[i]\<close> beyond the last bit.
\<close>

definition embed_step :: "int list \<Rightarrow> nat \<Rightarrow> pixel list \<times> int list \<Rightarrow> error + pixel list \<times> int list" where
  "embed_step digest_bits i s =
     (case s of (flat, original_lsb_bits) \<Rightarrow>
        (if i < length flat then
           (let val = fold_rgb (flat ! i);
                lsb = val AND 1
            in (if i < length digest_bits then
                  (let new_val = (val AND NOT 1) OR digest_bits ! i
                   in Inr (flat[i := unfold_rgb new_val], original_lsb_bits @ [lsb]))
                else Inl IndexError))
         else Inl IndexError))"

definition embed_bits :: "int list \<Rightarrow> pixel list \<Rightarrow> error + pixel list \<times> int list" where
  "embed_bits digest_bits flat = for_loop (embed_step digest_bits) [0..<NUM_PIXELS] (flat, [])"

text \<open>The extraction loop of \<^verbatim>\<open>authenticate_image\<close>; the state is \<^verbatim>\<open>embedded_bits\<close>.\<close>

definition extract_step :: "pixel list \<Rightarrow> nat \<Rightarrow> int list \<Rightarrow> error + int list" where
  "extract_step flat i embedded_bits =
     (if i < length flat then Inr (embedded_bits @ [fold_rgb (flat ! i) AND 1])
      else Inl IndexError)"

definition extract_bits :: "pixel list \<Rightarrow> error + int list" where
  "extract_bits flat = for_loop (extract_step flat) [0..<NUM_PIXELS] []"

text \<open>The reconstruction loop of \<^verbatim>\<open>authenticate_image\<close>; the state is \<^verbatim>\<open>flat\<close>.\<close>

definition restore_step :: "int list \<Rightarrow> nat \<Rightarrow> pixel list \<Rightarrow> error + pixel list" where
  "restore_step original_bits i flat =
     (if i < length flat then
        (let val = fold_rgb (flat ! i)
         in (if i < length original_bits then
               (let new_val = (val AND NOT 1) OR original_bits ! i
                in Inr (flat[i := unfold_rgb new_val]))
             else Inl IndexError))
      else Inl IndexError)"

definition restore_bits :: "int list \<Rightarrow> pixel list \<Rightarrow> error + pixel list" where
  "restore_bits original_bits flat = for_loop (restore_step original_bits) [0..<NUM_PIXELS] flat"

section \<open>The two operations\<close>

text \<open>
  \<^verbatim>\<open>secure_image\<close>, from the upload's bytes to the body of the response,
  \<^verbatim>\<open>new_image_bytes + appended_bytes\<close> (the media type and the file name of the response
  are left out). Exceptions of the image library are not caught here.
\<close>

definition secure_image :: "collaborators \<Rightarrow> byte list \<Rightarrow> error + byte list" where
  "secure_image C data =
     (if length data < MIN_BYTES then
        Inl (HTTPException 400
          ''Image too small to secure. Must have at least 6144 bits (256 pixels).'')
      else
        (case image_bytes_to_rgb_array C data of
           Inl msg \<Rightarrow> Inl (ImageError msg)
         | Inr (arr, fmt) \<Rightarrow>
             (let digest = sha256 C (tobytes arr);
                  digest_bits = unpack_bytes_to_bits digest (Some HASH_BITS)
              in (case embed_bits digest_bits (pixels arr) of
                    Inl e \<Rightarrow> Inl e
                  | Inr (flat, original_lsb_bits) \<Rightarrow>
                      (let new_arr = arr\<lparr>pixels := flat\<rparr>
                       in (case rgb_array_to_image_bytes C new_arr fmt of
                             Inl msg \<Rightarrow> Inl (ImageError msg)
                           | Inr new_image_bytes \<Rightarrow>
                               (case pack_bits_to_bytes original_lsb_bits of
                                  Inl e \<Rightarrow> Inl e
                                | Inr appended_bytes \<Rightarrow>
                                    Inr (new_image_bytes @ appended_bytes))))))))"

text \<open>
  \<^verbatim>\<open>round(auth_percent, 2)\<close>. \<^verbatim>\<open>auth_percent\<close> is \<^verbatim>\<open>(match_count / 256) * 100\<close> with
  \<^verbatim>\<open>match_count\<close> at most 256, which floating point computes exactly; Python rounds the
  exact value to two decimals, a tie to the even neighbour, and JSON prints that decimal.
\<close>

definition py_round2 :: "rat \<Rightarrow> rat" where
  "py_round2 x =
     (let s = x * 100;
          n = \<lfloor>s\<rfloor>;
          f = s - of_int n
      in (if f < 1 / 2 then of_int n
          else if 1 / 2 < f then of_int (n + 1)
          else if even n then of_int n else of_int (n + 1)) / 100)"

text \<open>The JSON content that \<^verbatim>\<open>authenticate_image\<close> returns.\<close>

record auth_response =
  authentic :: bool
  message :: string
  authentication_percentage :: rat
  restored_image_b64 :: string

text \<open>
  \<^verbatim>\<open>sum(1 for a, b in zip(computed_bits, embedded_bits) if a == b)\<close>.
\<close>

definition match_count :: "int list \<Rightarrow> int list \<Rightarrow> nat" where
  "match_count computed_bits embedded_bits =
     length (filter (\<lambda>(a, b). a = b) (zip computed_bits embedded_bits))"

text \<open>
  \<^verbatim>\<open>authenticate_image\<close>. \<^verbatim>\<open>data[-APPENDED_BYTES:]\<close> is the last 32 bytes and
  \<^verbatim>\<open>data[:-APPENDED_BYTES]\<close> the bytes before them. An exception of the decoder is caught
  and turned into an HTTPException; one of the encoder is not.
\<close>

definition authenticate_image :: "collaborators \<Rightarrow> byte list \<Rightarrow> error + auth_response" where
  "authenticate_image C data =
     (if length data < MIN_BYTES + APPENDED_BYTES then
        Inl (HTTPException 400
          ''Image too small or lacks appended data. Must have at least 6144 bits (256 pixels).'')
      else
        (let appended = drop (length data - APPENDED_BYTES) data;
             image_bytes = take (length data - APPENDED_BYTES) data
         in (case image_bytes_to_rgb_array C image_bytes of
               Inl msg \<Rightarrow> Inl (HTTPException 400 (''Invalid image bytes: '' @ msg))
             | Inr (arr, fmt) \<Rightarrow>
                 (case extract_bits (pixels arr) of
                    Inl e \<Rightarrow> Inl e
                  | Inr embedded_bits \<Rightarrow>
                      (let original_bits = unpack_bytes_to_bits appended (Some HASH_BITS)
                       in (case restore_bits original_bits (pixels arr) of
                             Inl e \<Rightarrow> Inl e
                           | Inr flat \<Rightarrow>
                               (let restored_arr = arr\<lparr>pixels := flat\<rparr>
                                in (case rgb_array_to_image_bytes C restored_arr fmt of
                                      Inl msg \<Rightarrow> Inl (ImageError msg)
                                    | Inr restored_image_bytes \<Rightarrow>
                                        (let computed_digest = sha256 C (tobytes restored_arr);
                                             computed_bits =
                                               unpack_bytes_to_bits computed_digest (Some HASH_BITS);
                                             auth_percent =
                                               of_nat (match_count computed_bits embedded_bits)
                                                 / of_nat HASH_BITS * 100;
                                             is_authentic = (computed_bits = embedded_bits)
                                         in Inr \<lparr>authentic = is_authentic,
                                                 message =
                                                   (if is_authentic
                                                    then ''Image authentic (untampered).''
                                                    else ''Image tampered / altered.''),
                                                 authentication_percentage = py_round2 auth_percent,
                                                 restored_image_b64 =
                                                   b64encode C restored_image_bytes\<rparr>)))))))))"

section \<open>Stand-ins for the libraries\<close>

text \<open>
  Concrete collaborators, to run the two operations on concrete uploads; they stand for
  the image library and the hash, which are not part of the repository. The image format
  of \<open>raw_codec\<close> is a height byte, a width byte and the pixels as raw bytes; what follows
  the pixels is ignored. Its digest is constant.
\<close>

fun pixels_of_bytes :: "byte list \<Rightarrow> pixel list" where
  "pixels_of_bytes (r # g # b # rest) = (r, g, b) # pixels_of_bytes rest"
| "pixels_of_bytes rest = []"

definition raw_decode :: "byte list \<Rightarrow> string + (rgb_array \<times> string)" where
  "raw_decode bs =
     (case bs of
        h # w # rest \<Rightarrow>
          (if 3 * (unat h * unat w) \<le> length rest then
             Inr (\<lparr>shape = (unat h, unat w),
                   pixels = pixels_of_bytes (take (3 * (unat h * unat w)) rest)\<rparr>, ''RAW'')
           else Inl ''image file is truncated'')
      | rest \<Rightarrow> Inl ''cannot identify image file'')"

definition raw_encode :: "rgb_array \<Rightarrow> string \<Rightarrow> string + byte list" where
  "raw_encode arr fmt =
     Inr ([of_nat (fst (shape arr)), of_nat (snd (shape arr))] @ tobytes arr)"

definition raw_codec :: collaborators where
  "raw_codec =
     \<lparr>image_bytes_to_rgb_array = raw_decode,
      rgb_array_to_image_bytes = raw_encode,
      sha256 = (\<lambda>bs. replicate 32 0),
      b64encode = (\<lambda>bs. [])\<rparr>"

text \<open>
  A second stand-in, \<open>solid_codec\<close>, for an image format that compresses: a file holds a
  height byte, a width byte and one colour, and stands for the image of that size in that
  colour; what follows is ignored. Only images of one colour can be written.
\<close>

definition solid_decode :: "byte list \<Rightarrow> string + (rgb_array \<times> string)" where
  "solid_decode bs =
     (case bs of
        h # w # r # g # b # rest \<Rightarrow>
          Inr (\<lparr>shape = (unat h, unat w), pixels = replicate (unat h * unat w) (r, g, b)\<rparr>,
               ''SOLID'')
      | rest \<Rightarrow> Inl ''cannot identify image file'')"

definition solid_encode :: "rgb_array \<Rightarrow> string \<Rightarrow> string + byte list" where
  "solid_encode arr fmt =
     (case pixels arr of
        [] \<Rightarrow> Inl ''cannot write empty image''
      | (r, g, b) # ps \<Rightarrow>
          (if ps = replicate (length ps) (r, g, b)
           then Inr [of_nat (fst (shape arr)), of_nat (snd (shape arr)), r, g, b]
           else Inl ''cannot write image of several colours''))"

definition solid_codec :: collaborators where
  "solid_codec =
     \<lparr>image_bytes_to_rgb_array = solid_decode,
      rgb_array_to_image_bytes = solid_encode,
      sha256 = (\<lambda>bs. replicate 32 0),
      b64encode = (\<lambda>bs. [])\<rparr>"

section \<open>Closed forms\<close>

text \<open>
  What one iteration does to a pixel, and the pixel list and the recorded bits after the
  first \<open>k\<close> iterations. Each loop is proved equal to its closed form below.
\<close>

definition set_lsb :: "pixel \<Rightarrow> int \<Rightarrow> pixel" where
  "set_lsb p d = unfold_rgb ((fold_rgb p AND NOT 1) OR d)"

definition embedded :: "int list \<Rightarrow> pixel list \<Rightarrow> nat \<Rightarrow> pixel list" where
  "embedded bits flat k =
     map (\<lambda>i. if i < k then set_lsb (flat ! i) (bits ! i) else flat ! i) [0..<length flat]"

definition lsbs :: "pixel list \<Rightarrow> nat \<Rightarrow> int list" where
  "lsbs flat k = map (\<lambda>i. fold_rgb (flat ! i) AND 1) [0..<k]"

text \<open>
  The value the inner loop of \<^verbatim>\<open>pack_bits_to_bytes\<close> builds from a start value and a
  list of bits, the \<open>q\<close>-th group of eight bits, and the bytes after \<open>k\<close> groups.
\<close>

definition bits_value :: "int \<Rightarrow> int list \<Rightarrow> int" where
  "bits_value acc bs = foldl (\<lambda>byte b. push_bit 1 byte OR b) acc bs"

definition chunk :: "int list \<Rightarrow> nat \<Rightarrow> int list" where
  "chunk bit_list q = take 8 (drop (8 * q) bit_list)"

definition packed :: "int list \<Rightarrow> nat \<Rightarrow> byte list" where
  "packed bit_list k = map (\<lambda>q. word_of_int (bits_value 0 (chunk bit_list q))) [0..<k]"

text \<open>
  The content \<^verbatim>\<open>authenticate_image\<close> returns, as a function of the two bit sequences it
  compares and of the re-encoded restored image.
\<close>

definition auth_result :: "collaborators \<Rightarrow> int list \<Rightarrow> int list \<Rightarrow> byte list \<Rightarrow> auth_response" where
  "auth_result C computed_bits embedded_bits restored_image_bytes =
     \<lparr>authentic = (computed_bits = embedded_bits),
      message =
        (if computed_bits = embedded_bits then ''Image authentic (untampered).''
         else ''Image tampered / altered.''),
      authentication_percentage =
        py_round2 (of_nat (match_count computed_bits embedded_bits) / of_nat HASH_BITS * 100),
      restored_image_b64 = b64encode C restored_image_bytes\<rparr>"

section \<open>One pixel, and each loop over the first pixels\<close>

lemma for_loop_append:
  "for_loop body (xs @ ys) s =
     (case for_loop body xs s of Inl e \<Rightarrow> Inl e | Inr s' \<Rightarrow> for_loop body ys s')"
  by (induction xs arbitrary: s) (auto split: sum.splits)

lemma byte_mask: "(255 :: int) = mask 8"
  by (simp add: mask_eq_exp_minus_1)

lemma bit_byte_high: "\<not> bit (w :: byte) (8 + n)" "\<not> bit (w :: byte) (16 + n)"
  by (auto dest: bit_imp_le_length)

lemma unfold_fold_clear:
  "d = 0 \<or> d = 1 \<Longrightarrow> set_lsb (r, g, b) d = (r, g, (b AND NOT 1) OR word_of_int d)"
  apply (simp add: set_lsb_def fold_rgb_def unfold_rgb_def byte_mask)
  apply (intro conjI bit_eqI)
  apply (auto simp add: bit_simps bit_byte_high dest: bit_imp_le_length)
  done

lemma lsb_is_bit: "fold_rgb p AND 1 = 0 \<or> fold_rgb p AND 1 = 1"
  by (simp add: and_one_eq) presburger

lemma fold_rgb_lsb: "fold_rgb (r, g, b) AND 1 = of_bool (odd b)"
  unfolding fold_rgb_def prod.case
  by (rule bit_eqI) (auto simp add: bit_simps bit_0 simp del: of_bool_eq_iff)

lemma restore_byte:
  "d = 0 \<or> d = 1 \<Longrightarrow>
   ((b AND NOT 1) OR word_of_int d) AND NOT 1 OR word_of_int (of_bool (odd b)) = (b :: byte)"
  by (rule bit_eqI) (auto simp add: bit_simps bit_0)

lemma set_lsb_restore:
  assumes "d = 0 \<or> d = 1"
  shows "set_lsb (set_lsb p d) (fold_rgb p AND 1) = p"
proof -
  obtain r g b where p: "p = (r, g, b)" by (cases p)
  have 1: "set_lsb p d = (r, g, (b AND NOT 1) OR word_of_int d)"
    using assms by (simp add: p unfold_fold_clear)
  have 2: "set_lsb (r, g, (b AND NOT 1) OR word_of_int d) (fold_rgb p AND 1)
             = (r, g, ((b AND NOT 1) OR word_of_int d) AND NOT 1 OR word_of_int (fold_rgb p AND 1))"
    using lsb_is_bit [of p] by (rule unfold_fold_clear)
  show ?thesis
    unfolding 1 2 unfolding p fold_rgb_lsb restore_byte [OF assms] ..
qed

lemma lsb_byte:
  "d = 0 \<or> d = 1 \<Longrightarrow> of_bool (odd ((b AND NOT 1) OR (word_of_int d :: byte))) = d"
  by (auto simp add: bit_0 [symmetric] bit_simps simp del: bit_0)

lemma lsb_set_lsb:
  assumes "d = 0 \<or> d = 1"
  shows "fold_rgb (set_lsb p d) AND 1 = d"
proof -
  obtain r g b where p: "p = (r, g, b)" by (cases p)
  show ?thesis
    unfolding p unfold_fold_clear [OF assms] fold_rgb_lsb by (rule lsb_byte [OF assms])
qed


lemma set_lsb_simp: "unfold_rgb (fold_rgb p AND - 2 OR d) = set_lsb p d"
  by (simp add: set_lsb_def)

lemma length_embedded [simp]: "length (embedded bits flat k) = length flat"
  by (simp add: embedded_def)

lemma embedded_0 [simp]: "embedded bits flat 0 = flat"
  by (rule nth_equalityI) (simp_all add: embedded_def)

lemma nth_embedded:
  "i < length flat \<Longrightarrow>
   embedded bits flat k ! i = (if i < k then set_lsb (flat ! i) (bits ! i) else flat ! i)"
  by (simp add: embedded_def)

lemma embedded_Suc:
  "k < length flat \<Longrightarrow>
   (embedded bits flat k)[k := set_lsb (flat ! k) (bits ! k)] = embedded bits flat (Suc k)"
  by (rule nth_equalityI) (simp_all add: nth_embedded nth_list_update)

lemma embed_loop:
  "k \<le> length flat \<Longrightarrow> k \<le> length bits \<Longrightarrow>
   for_loop (embed_step bits) [0..<k] (flat, acc)
     = Inr (embedded bits flat k, acc @ lsbs flat k)"
proof (induction k)
  case 0
  then show ?case by (simp add: lsbs_def)
next
  case (Suc k)
  then have "for_loop (embed_step bits) [0..<k] (flat, acc) = Inr (embedded bits flat k, acc @ lsbs flat k)"
    by simp
  moreover have "embed_step bits k (embedded bits flat k, acc @ lsbs flat k)
      = Inr (embedded bits flat (Suc k), acc @ lsbs flat (Suc k))"
    using Suc.prems
    by (simp add: embed_step_def nth_embedded embedded_Suc set_lsb_simp lsbs_def Let_def)
  ultimately show ?case
    by (simp add: for_loop_append)
qed

lemma restore_loop:
  "k \<le> length flat \<Longrightarrow> k \<le> length bits \<Longrightarrow>
   for_loop (restore_step bits) [0..<k] flat = Inr (embedded bits flat k)"
proof (induction k)
  case 0
  then show ?case by simp
next
  case (Suc k)
  then have "for_loop (restore_step bits) [0..<k] flat = Inr (embedded bits flat k)"
    by simp
  moreover have "restore_step bits k (embedded bits flat k) = Inr (embedded bits flat (Suc k))"
    using Suc.prems
    by (simp add: restore_step_def nth_embedded embedded_Suc set_lsb_simp Let_def)
  ultimately show ?case
    by (simp add: for_loop_append)
qed

lemma extract_loop:
  "k \<le> length flat \<Longrightarrow>
   for_loop (extract_step flat) [0..<k] acc = Inr (acc @ lsbs flat k)"
proof (induction k)
  case 0
  then show ?case by (simp add: lsbs_def)
next
  case (Suc k)
  then show ?case
    by (simp add: for_loop_append extract_step_def lsbs_def)
qed

lemma embed_step_Inl: "embed_step bits i s = Inl e \<Longrightarrow> e = IndexError"
  by (cases s) (auto simp add: embed_step_def Let_def split: if_splits)

lemma embed_step_Inr:
  "embed_step bits i (flat, acc) = Inr (flat', acc') \<Longrightarrow> length flat' = length flat \<and> i < length flat"
  by (auto simp add: embed_step_def Let_def split: if_splits)

lemma embed_for_loop_Inl:
  "for_loop (embed_step bits) xs s = Inl e \<Longrightarrow> e = IndexError"
  by (induction xs arbitrary: s) (auto split: sum.splits dest: embed_step_Inl)

lemma embed_for_loop_Inr:
  "for_loop (embed_step bits) xs (flat, acc) = Inr (flat', acc') \<Longrightarrow> i \<in> set xs \<Longrightarrow> i < length flat"
proof (induction xs arbitrary: flat acc)
  case Nil
  then show ?case by simp
next
  case (Cons x xs)
  from Cons.prems(1) obtain f1 a1 where st: "embed_step bits x (flat, acc) = Inr (f1, a1)"
    and rest: "for_loop (embed_step bits) xs (f1, a1) = Inr (flat', acc')"
    by (auto split: sum.splits)
  from st have len: "length f1 = length flat" and x: "x < length flat"
    by (auto dest: embed_step_Inr)
  show ?case
  proof (cases "i = x")
    case True
    with x show ?thesis by simp
  next
    case False
    with Cons.prems(2) have "i \<in> set xs" by simp
    with Cons.IH [OF rest] len show ?thesis by simp
  qed
qed

lemma embed_bits_short:
  assumes "length flat < NUM_PIXELS"
  shows "embed_bits bits flat = Inl IndexError"
proof (cases "embed_bits bits flat")
  case (Inl e)
  then have "for_loop (embed_step bits) [0..<NUM_PIXELS] (flat, []) = Inl e"
    by (simp only: embed_bits_def)
  then have "e = IndexError"
    by (rule embed_for_loop_Inl)
  with Inl show ?thesis by simp
next
  case (Inr s)
  obtain flat' acc' where "s = (flat', acc')" by (cases s)
  with Inr have "for_loop (embed_step bits) [0..<NUM_PIXELS] (flat, []) = Inr (flat', acc')"
    by (simp only: embed_bits_def)
  moreover have "length flat \<in> set [0..<NUM_PIXELS]"
    using assms by simp
  ultimately have "length flat < length flat"
    by (rule embed_for_loop_Inr)
  then show ?thesis by simp
qed


lemma bit_byte_ge: "\<not> n < 8 \<Longrightarrow> \<not> bit (w :: byte) n"
  by (auto dest: bit_imp_le_length)

lemma set_lsb_clear:
  assumes "d = 0 \<or> d = 1"
  shows "fold_rgb (set_lsb p d) AND NOT 1 = fold_rgb p AND NOT 1"
proof -
  obtain r g b where p: "p = (r, g, b)" by (cases p)
  show ?thesis
    unfolding p unfold_fold_clear [OF assms] fold_rgb_def prod.case
    using assms by (auto intro!: bit_eqI simp add: bit_simps bit_byte_ge)
qed

lemma embed_bits_ok:
  assumes "NUM_PIXELS \<le> length flat" and "NUM_PIXELS \<le> length bits"
  shows "embed_bits bits flat = Inr (embedded bits flat NUM_PIXELS, lsbs flat NUM_PIXELS)"
  using embed_loop [OF assms, of "[]"] by (simp add: embed_bits_def)

lemma restore_bits_ok:
  assumes "NUM_PIXELS \<le> length flat" and "NUM_PIXELS \<le> length bits"
  shows "restore_bits bits flat = Inr (embedded bits flat NUM_PIXELS)"
  using restore_loop [OF assms] by (simp add: restore_bits_def)

lemma extract_bits_ok:
  assumes "NUM_PIXELS \<le> length flat"
  shows "extract_bits flat = Inr (lsbs flat NUM_PIXELS)"
  using extract_loop [OF assms, of "[]"] by (simp add: extract_bits_def)

lemma length_lsbs [simp]: "length (lsbs flat k) = k"
  by (simp add: lsbs_def)

lemma nth_lsbs: "i < k \<Longrightarrow> lsbs flat k ! i = fold_rgb (flat ! i) AND 1"
  by (simp add: lsbs_def)

lemma embedded_restore:
  assumes "k \<le> length flat" and "\<forall>i<k. bits ! i = 0 \<or> bits ! i = 1"
  shows "embedded (lsbs flat k) (embedded bits flat k) k = flat"
proof (rule nth_equalityI)
  show "length (embedded (lsbs flat k) (embedded bits flat k) k) = length flat"
    by simp
next
  fix i
  assume "i < length (embedded (lsbs flat k) (embedded bits flat k) k)"
  then have i: "i < length flat" by simp
  show "embedded (lsbs flat k) (embedded bits flat k) k ! i = flat ! i"
  proof (cases "i < k")
    case True
    with assms(2) have "bits ! i = 0 \<or> bits ! i = 1" by simp
    then have "set_lsb (set_lsb (flat ! i) (bits ! i)) (fold_rgb (flat ! i) AND 1) = flat ! i"
      by (rule set_lsb_restore)
    with True i show ?thesis by (simp add: nth_embedded nth_lsbs)
  next
    case False
    with i show ?thesis by (simp add: nth_embedded)
  qed
qed

lemma bits_nth:
  "set bits \<subseteq> {0, 1} \<Longrightarrow> k \<le> length bits \<Longrightarrow> \<forall>i<k. bits ! i = 0 \<or> bits ! i = (1::int)"
  by (auto simp add: subset_iff)


section \<open>Size checks\<close>

text \<open>
  C8. An upload of fewer than 768 bytes makes \<^verbatim>\<open>secure_image\<close> raise the HTTP 400
  "Image too small" exception, and a buffer of fewer than 800 bytes makes
  \<^verbatim>\<open>authenticate_image\<close> raise the HTTP 400 "Image too small" exception, whatever the
  collaborators would do: nothing is decoded and no output is produced.
\<close>

theorem size_rejection:
  "(length data < 768 \<longrightarrow>
      secure_image C data = Inl (HTTPException 400
        ''Image too small to secure. Must have at least 6144 bits (256 pixels).''))
   \<and> (length data < 800 \<longrightarrow>
      authenticate_image C data = Inl (HTTPException 400
        ''Image too small or lacks appended data. Must have at least 6144 bits (256 pixels).''))"
  by (simp add: secure_image_def authenticate_image_def MIN_BYTES_def MIN_BITS_def
      APPENDED_BYTES_def HASH_BITS_def)

theorem size_rejection_witness:
  "length (replicate 767 (0 :: byte)) < 768
   \<and> secure_image raw_codec (replicate 767 0) = Inl (HTTPException 400
        ''Image too small to secure. Must have at least 6144 bits (256 pixels).'')
   \<and> length (replicate 799 (0 :: byte)) < 800
   \<and> authenticate_image raw_codec (replicate 799 0) = Inl (HTTPException 400
        ''Image too small or lacks appended data. Must have at least 6144 bits (256 pixels).'')"
  using size_rejection [of "replicate 767 0" raw_codec]
    size_rejection [of "replicate 799 0" raw_codec]
  by simp

section \<open>Embedding and restoring\<close>

text \<open>
  C1. For an array of at least 256 pixels and a sequence of 256 bits (each 0 or 1), the
  embedding loop succeeds, and the restoring loop run on the modified pixels with the
  recorded original bits succeeds and gives back the array, pixel for pixel.
\<close>

theorem embed_restore_roundtrip:
  assumes "NUM_PIXELS \<le> length (pixels arr)"
    and "length digest_bits = HASH_BITS"
    and "set digest_bits \<subseteq> {0, 1}"
  shows "\<exists>flat original_lsb_bits restored.
           embed_bits digest_bits (pixels arr) = Inr (flat, original_lsb_bits)
           \<and> restore_bits original_lsb_bits (pixels (arr\<lparr>pixels := flat\<rparr>)) = Inr restored
           \<and> arr\<lparr>pixels := flat, pixels := restored\<rparr> = arr"
proof -
  let ?flat = "embedded digest_bits (pixels arr) NUM_PIXELS"
  let ?lsb = "lsbs (pixels arr) NUM_PIXELS"
  have n: "NUM_PIXELS \<le> length digest_bits"
    using assms(2) by (simp add: NUM_PIXELS_def)
  have 1: "embed_bits digest_bits (pixels arr) = Inr (?flat, ?lsb)"
    using assms(1) n by (rule embed_bits_ok)
  have 2: "restore_bits ?lsb ?flat = Inr (embedded ?lsb ?flat NUM_PIXELS)"
    by (rule restore_bits_ok) (simp_all add: assms(1))
  have 3: "embedded ?lsb ?flat NUM_PIXELS = pixels arr"
    using assms(1) bits_nth [OF assms(3) n] by (rule embedded_restore)
  show ?thesis
    using 1 2 3 by simp
qed

theorem embed_restore_roundtrip_witness:
  "NUM_PIXELS \<le> length (pixels \<lparr>shape = (10, 30), pixels = replicate 300 (10, 20, 30)\<rparr>)
   \<and> length (replicate 256 (1 :: int)) = HASH_BITS
   \<and> set (replicate 256 (1 :: int)) \<subseteq> {0, 1}
   \<and> (\<exists>flat original_lsb_bits restored.
           embed_bits (replicate 256 1) (replicate 300 (10, 20, 30)) = Inr (flat, original_lsb_bits)
           \<and> restore_bits original_lsb_bits flat = Inr restored
           \<and> restored = replicate 300 (10, 20, 30))"
  using embed_restore_roundtrip [of "\<lparr>shape = (10, 30), pixels = replicate 300 (10, 20, 30)\<rparr>" "replicate 256 1"]
  by (simp add: NUM_PIXELS_def HASH_BITS_def)

text \<open>
  C7. For a pixel list of at least 256 pixels and a sequence of 256 bits, the embedding loop
  succeeds and keeps the number of pixels; in each of the first 256 pixels the folded
  24-bit value keeps all bits but the lowest, that is, red and green are unchanged and
  blue keeps all bits but bit 0; every pixel from index 256 on is unchanged.
\<close>

theorem embed_frame:
  assumes "NUM_PIXELS \<le> length flat"
    and "length digest_bits = HASH_BITS"
    and "set digest_bits \<subseteq> {0, 1}"
  shows "\<exists>modified original_lsb_bits.
           embed_bits digest_bits flat = Inr (modified, original_lsb_bits)
           \<and> length modified = length flat
           \<and> (\<forall>i<NUM_PIXELS.
                 fold_rgb (modified ! i) AND NOT 1 = fold_rgb (flat ! i) AND NOT 1
                 \<and> fst (modified ! i) = fst (flat ! i)
                 \<and> fst (snd (modified ! i)) = fst (snd (flat ! i))
                 \<and> snd (snd (modified ! i)) AND NOT 1 = snd (snd (flat ! i)) AND NOT 1)
           \<and> (\<forall>i. NUM_PIXELS \<le> i \<and> i < length flat \<longrightarrow> modified ! i = flat ! i)"
proof -
  let ?m = "embedded digest_bits flat NUM_PIXELS"
  have n: "NUM_PIXELS \<le> length digest_bits"
    using assms(2) by (simp add: NUM_PIXELS_def)
  have bit: "\<forall>i<NUM_PIXELS. digest_bits ! i = 0 \<or> digest_bits ! i = 1"
    using assms(3) n by (rule bits_nth)
  have 1: "embed_bits digest_bits flat = Inr (?m, lsbs flat NUM_PIXELS)"
    using assms(1) n by (rule embed_bits_ok)
  have 2: "fold_rgb (?m ! i) AND NOT 1 = fold_rgb (flat ! i) AND NOT 1
           \<and> fst (?m ! i) = fst (flat ! i)
           \<and> fst (snd (?m ! i)) = fst (snd (flat ! i))
           \<and> snd (snd (?m ! i)) AND NOT 1 = snd (snd (flat ! i)) AND NOT 1"
    if "i < NUM_PIXELS" for i
  proof -
    obtain r g b where p: "flat ! i = (r, g, b)" by (cases "flat ! i")
    from that bit have d: "digest_bits ! i = 0 \<or> digest_bits ! i = 1" by simp
    from that assms(1) have m: "?m ! i = set_lsb (flat ! i) (digest_bits ! i)"
      by (simp add: nth_embedded)
    have b: "(b AND NOT 1 OR word_of_int (digest_bits ! i)) AND NOT 1 = b AND NOT 1"
      using d by (auto intro!: bit_eqI simp add: bit_simps)
    show ?thesis
      unfolding m using set_lsb_clear [OF d, of "flat ! i"] b
      by (simp add: p unfold_fold_clear [OF d])
  qed
  have 3: "?m ! i = flat ! i" if "NUM_PIXELS \<le> i \<and> i < length flat" for i
    using that by (simp add: nth_embedded)
  show ?thesis
    using 1 2 3 by simp
qed

theorem embed_frame_witness:
  "NUM_PIXELS \<le> length (replicate 300 (10 :: byte, 20 :: byte, 30 :: byte))
   \<and> length (replicate 256 (1 :: int)) = HASH_BITS
   \<and> set (replicate 256 (1 :: int)) \<subseteq> {0, 1}
   \<and> (\<exists>modified original_lsb_bits.
           embed_bits (replicate 256 1) (replicate 300 (10, 20, 30)) = Inr (modified, original_lsb_bits)
           \<and> length modified = 300
           \<and> fst (modified ! 0) = 10
           \<and> modified ! 256 = (10, 20, 30))"
  using embed_frame [of "replicate 300 (10, 20, 30)" "replicate 256 1"]
  by (auto simp add: NUM_PIXELS_def HASH_BITS_def)

section \<open>Packing and unpacking\<close>

lemma pack_inner:
  "i + j \<le> length bit_list \<Longrightarrow>
   for_loop (pack_bit bit_list i) [0..<j] acc = Inr (bits_value acc (take j (drop i bit_list)))"
proof (induction j)
  case 0
  then show ?case by (simp add: bits_value_def)
next
  case (Suc j)
  then have "take (Suc j) (drop i bit_list) = take j (drop i bit_list) @ [bit_list ! (i + j)]"
    by (simp add: take_Suc_conv_app_nth)
  with Suc show ?case
    by (simp add: for_loop_append pack_bit_def bits_value_def)
qed

lemma pack_inner_short:
  assumes "length bit_list < i + 8"
  shows "for_loop (pack_bit bit_list i) [0..<8] acc = Inl IndexError"
proof -
  define j where "j = length bit_list - i"
  show ?thesis
  proof (cases "i \<le> length bit_list")
    case True
    then have j: "i + j = length bit_list" "j < 8"
      using assms by (simp_all add: j_def)
    then have "[0..<j + (8 - j)] = [0..<j] @ [j..<j + (8 - j)]"
      by (intro upt_add_eq_append) simp
    with j have "[0..<8] = [0..<j] @ j # [Suc j..<8]"
      by (simp add: upt_conv_Cons del: upt_Suc)
    moreover have "for_loop (pack_bit bit_list i) [0..<j] acc = Inr (bits_value acc (take j (drop i bit_list)))"
      using j by (intro pack_inner) simp
    ultimately show ?thesis
      using j by (simp add: for_loop_append pack_bit_def del: upt_Suc)
  next
    case False
    have "[0..<8] = 0 # [1..<8]"
      by (simp add: upt_conv_Cons)
    with False show ?thesis
      by (simp add: pack_bit_def del: upt_Suc)
  qed
qed

lemma bit_shift_or:
  fixes x b :: int
  assumes "b = 0 \<or> b = 1"
  shows "bit (push_bit 1 x OR b) n = (if n = 0 then b = 1 else bit x (n - 1))"
proof (cases n)
  case 0
  with assms show ?thesis
    by (auto simp add: bit_0 even_or_iff)
next
  case (Suc m)
  have "bit (push_bit 1 x) (Suc m) = bit x m"
    by (simp only: bit_push_bit_iff) simp
  moreover have "\<not> bit b (Suc m)"
    using assms by (auto simp add: bit_Suc)
  ultimately show ?thesis
    by (simp only: bit_or_iff Suc) simp
qed

lemma bit_bits_value:
  "\<forall>b\<in>set bs. b = 0 \<or> b = 1 \<Longrightarrow>
   bit (bits_value acc bs) n =
     (if n < length bs then bs ! (length bs - 1 - n) = 1 else bit acc (n - length bs))"
proof (induction bs arbitrary: n rule: rev_induct)
  case Nil
  then show ?case by (simp add: bits_value_def)
next
  case (snoc b bs)
  then have IH: "\<And>n. bit (bits_value acc bs) n =
     (if n < length bs then bs ! (length bs - 1 - n) = 1 else bit acc (n - length bs))"
    by simp
  from snoc.prems have b: "b = 0 \<or> b = 1" by simp
  have v: "bits_value acc (bs @ [b]) = push_bit 1 (bits_value acc bs) OR b"
    by (simp add: bits_value_def)
  show ?case
    unfolding v bit_shift_or [OF b] using IH [of "n - 1"]
    by (cases n) (auto simp add: nth_append)
qed

lemma bits_value_range:
  assumes "\<forall>b\<in>set bs. b = 0 \<or> b = 1" and "length bs \<le> 8"
  shows "0 \<le> bits_value 0 bs \<and> bits_value 0 bs < 256"
proof -
  have "take_bit 8 (bits_value 0 bs) = bits_value 0 bs"
    using assms(2)
    by (auto intro!: bit_eqI simp add: bit_take_bit_iff bit_bits_value [OF assms(1)]
        split: if_splits)
  moreover have "0 \<le> take_bit 8 (bits_value 0 bs)"
    by simp
  moreover have "take_bit 8 (bits_value 0 bs) < 2 ^ 8"
    by (rule take_bit_int_less_exp)
  ultimately show ?thesis by simp
qed

lemma byte_bits_value:
  assumes "\<forall>b\<in>set bs. b = 0 \<or> b = 1" and "length bs = 8"
  shows "byte_bits (word_of_int (bits_value 0 bs)) = bs"
proof (rule nth_equalityI)
  show "length (byte_bits (word_of_int (bits_value 0 bs))) = length bs"
    using assms(2) by (simp add: byte_bits_def)
next
  fix i
  assume "i < length (byte_bits (word_of_int (bits_value 0 bs)))"
  then have i: "i < 8" by (simp add: byte_bits_def)
  have r: "rev [0..<8] ! i = 7 - i"
    using i by (simp add: rev_nth)
  have "bs ! i = 0 \<or> bs ! i = 1"
    using assms i by simp
  moreover have "7 - i < length bs" "length bs - 1 - (7 - i) = i"
    using i assms(2) by simp_all
  then have "bit (bits_value 0 bs) (7 - i) = (bs ! i = 1)"
    by (simp only: bit_bits_value [OF assms(1)] if_True)
  ultimately have "drop_bit (7 - i) (uint (word_of_int (bits_value 0 bs) :: byte)) AND 1 = bs ! i"
    using i by (auto simp add: and_one_eq bit_iff_odd_drop_bit [symmetric] bit_simps mod_2_eq_odd
        simp del: drop_bit_eq_div)
  then show "byte_bits (word_of_int (bits_value 0 bs)) ! i = bs ! i"
    using i r by (simp add: byte_bits_def del: upt_Suc)
qed

lemma bits01_chunk:
  "set bit_list \<subseteq> {0, 1} \<Longrightarrow> \<forall>b\<in>set (chunk bit_list q). b = 0 \<or> b = 1"
  by (auto simp add: chunk_def dest!: in_set_takeD in_set_dropD)

lemma pack_byte_ok:
  assumes "8 * q + 8 \<le> length bit_list" and "set bit_list \<subseteq> {0, 1}"
  shows "pack_byte bit_list (8 * q) b = Inr (b @ [word_of_int (bits_value 0 (chunk bit_list q))])"
proof -
  have "for_loop (pack_bit bit_list (8 * q)) [0..<8] 0 = Inr (bits_value 0 (chunk bit_list q))"
    unfolding chunk_def using assms(1) by (rule pack_inner)
  moreover have "0 \<le> bits_value 0 (chunk bit_list q) \<and> bits_value 0 (chunk bit_list q) < 256"
    using bits01_chunk [OF assms(2)] by (rule bits_value_range) (simp add: chunk_def)
  ultimately show ?thesis
    by (simp add: pack_byte_def del: upt_Suc)
qed

lemma pack_byte_short:
  assumes "length bit_list < i + 8"
  shows "pack_byte bit_list i b = Inl IndexError"
  using pack_inner_short [OF assms, of 0] by (simp add: pack_byte_def del: upt_Suc)

lemma pack_outer:
  assumes "set bit_list \<subseteq> {0, 1}"
  shows "8 * k \<le> length bit_list \<Longrightarrow>
         for_loop (pack_byte bit_list) (map (\<lambda>q. 8 * q) [0..<k]) [] = Inr (packed bit_list k)"
proof (induction k)
  case 0
  then show ?case by (simp add: packed_def)
next
  case (Suc k)
  then have "pack_byte bit_list (8 * k) (packed bit_list k) = Inr (packed bit_list (Suc k))"
    by (simp add: pack_byte_ok [OF _ assms] packed_def)
  with Suc show ?case
    by (simp add: for_loop_append)
qed

lemma concat_chunks: "concat (map (chunk xs) [0..<m]) = take (8 * m) xs"
proof (induction m)
  case 0
  then show ?case by simp
next
  case (Suc m)
  have "take (8 * m + 8) xs = take (8 * m) xs @ take 8 (drop (8 * m) xs)"
    by (rule take_add)
  moreover have "8 * Suc m = 8 * m + 8"
    by simp
  ultimately show ?case
    using Suc by (simp add: chunk_def del: mult_Suc_right)
qed

lemma unpack_packed:
  assumes "set bit_list \<subseteq> {0, 1}" and "8 * k \<le> length bit_list"
  shows "concat (map byte_bits (packed bit_list k)) = take (8 * k) bit_list"
proof -
  have "byte_bits (word_of_int (bits_value 0 (chunk bit_list q))) = chunk bit_list q"
    if "q < k" for q
    using bits01_chunk [OF assms(1)]
  proof (rule byte_bits_value)
    from that assms(2) show "length (chunk bit_list q) = 8"
      by (simp add: chunk_def)
  qed
  then have "map byte_bits (packed bit_list k) = map (chunk bit_list) [0..<k]"
    by (simp add: packed_def)
  then show ?thesis
    by (simp only: concat_chunks)
qed

text \<open>
  C6. For a sequence of bits (each 0 or 1) whose length is a multiple of 8, packing
  succeeds, unpacking the bytes gives the sequence back, and there are length / 8 bytes:
  32 bytes for 256 bits.
\<close>

theorem pack_unpack_roundtrip:
  assumes "length bit_list mod 8 = 0" and "set bit_list \<subseteq> {0, 1}"
  shows "\<exists>bts. pack_bits_to_bytes bit_list = Inr bts
           \<and> unpack_bytes_to_bits bts None = bit_list
           \<and> length bts = length bit_list div 8
           \<and> (length bit_list = 256 \<longrightarrow> length bts = 32)"
proof -
  define m where "m = length bit_list div 8"
  from assms(1) have len: "length bit_list = 8 * m"
    by (auto simp add: m_def)
  then have "range_step8 (length bit_list) = map (\<lambda>q. 8 * q) [0..<m]"
    by (simp add: range_step8_def)
  moreover have "for_loop (pack_byte bit_list) (map (\<lambda>q. 8 * q) [0..<m]) [] = Inr (packed bit_list m)"
    using assms(2) by (rule pack_outer) (simp add: len)
  ultimately have 1: "pack_bits_to_bytes bit_list = Inr (packed bit_list m)"
    by (simp add: pack_bits_to_bytes_def)
  have 2: "unpack_bytes_to_bits (packed bit_list m) None = bit_list"
    using unpack_packed [OF assms(2), of m] by (simp add: unpack_bytes_to_bits_def len)
  have 3: "length (packed bit_list m) = length bit_list div 8"
    by (simp add: packed_def m_def)
  show ?thesis
    using 1 2 3 by simp
qed

theorem pack_unpack_roundtrip_witness:
  "length [1, 0, 1, 1, 0, 0, 1, 0 :: int] mod 8 = 0
   \<and> set [1, 0, 1, 1, 0, 0, 1, 0 :: int] \<subseteq> {0, 1}
   \<and> (\<exists>bts. pack_bits_to_bytes [1, 0, 1, 1, 0, 0, 1, 0] = Inr bts
           \<and> unpack_bytes_to_bits bts None = [1, 0, 1, 1, 0, 0, 1, 0]
           \<and> length bts = 1)"
  using pack_unpack_roundtrip [of "[1, 0, 1, 1, 0, 0, 1, 0]"]
  by simp

text \<open>
  C4, as the code has it. For a sequence of bits whose length is not a multiple of 8,
  packing does not return the bytes of the complete groups: the inner loop reads beyond the
  end of the list in the last, incomplete group, and the call raises IndexError.
\<close>

theorem pack_remainder_fails:
  assumes "length bit_list mod 8 \<noteq> 0" and "set bit_list \<subseteq> {0, 1}"
  shows "pack_bits_to_bytes bit_list = Inl IndexError"
proof -
  define m where "m = length bit_list div 8"
  define r where "r = length bit_list mod 8"
  have len: "length bit_list = 8 * m + r" and r: "0 < r" "r < 8"
    using assms(1) by (simp_all add: m_def r_def)
  then have "(length bit_list + 7) div 8 = Suc m"
    by simp
  then have "range_step8 (length bit_list) = map (\<lambda>q. 8 * q) [0..<m] @ [8 * m]"
    by (simp add: range_step8_def)
  moreover have "for_loop (pack_byte bit_list) (map (\<lambda>q. 8 * q) [0..<m]) [] = Inr (packed bit_list m)"
    using assms(2) by (rule pack_outer) (simp add: len)
  moreover have "pack_byte bit_list (8 * m) (packed bit_list m) = Inl IndexError"
    by (rule pack_byte_short) (simp add: len r)
  ultimately show ?thesis
    by (simp add: pack_bits_to_bytes_def for_loop_append)
qed

theorem pack_remainder_fails_witness:
  "length [1, 0, 1 :: int] mod 8 \<noteq> 0 \<and> set [1, 0, 1 :: int] \<subseteq> {0, 1}
   \<and> pack_bits_to_bytes [1, 0, 1] = Inl IndexError"
  using pack_remainder_fails [of "[1, 0, 1]"] by simp

text \<open>
  Nine bits are not packed into one byte with the ninth bit dropped: the call raises.
\<close>

theorem pack_nine_bits_counterexample:
  "pack_bits_to_bytes [1, 1, 1, 1, 1, 1, 1, 1, 1] = Inl IndexError"
  by code_simp

section \<open>The two operations on their successful and failing paths\<close>

lemma pack_bits_ok:
  assumes "length bit_list = 8 * m" and "set bit_list \<subseteq> {0, 1}"
  shows "pack_bits_to_bytes bit_list = Inr (packed bit_list m)"
proof -
  have "range_step8 (length bit_list) = map (\<lambda>q. 8 * q) [0..<m]"
    by (simp add: range_step8_def assms(1))
  moreover have "for_loop (pack_byte bit_list) (map (\<lambda>q. 8 * q) [0..<m]) [] = Inr (packed bit_list m)"
    using assms(2) by (rule pack_outer) (simp add: assms(1))
  ultimately show ?thesis
    by (simp add: pack_bits_to_bytes_def)
qed

lemma length_packed [simp]: "length (packed bit_list m) = m"
  by (simp add: packed_def)

lemma lsbs01: "set (lsbs flat k) \<subseteq> {0, 1}"
proof
  fix x
  assume "x \<in> set (lsbs flat k)"
  then obtain i where "x = fold_rgb (flat ! i) AND 1"
    by (auto simp add: lsbs_def)
  with lsb_is_bit [of "flat ! i"] show "x \<in> {0, 1}"
    by auto
qed

lemma length_byte_bits [simp]: "length (byte_bits b) = 8"
  by (simp add: byte_bits_def)

lemma byte_bits01: "set (byte_bits b) \<subseteq> {0, 1}"
proof -
  have "x AND 1 = 0 \<or> x AND 1 = 1" for x :: int
    by (simp add: and_one_eq) presburger
  then show ?thesis
    by (auto simp add: byte_bits_def simp del: upt_Suc)
qed

lemma length_concat_byte_bits [simp]: "length (concat (map byte_bits bts)) = 8 * length bts"
  by (induction bts) simp_all

lemma length_unpack:
  "length (unpack_bytes_to_bits bts (Some n)) = min n (8 * length bts)"
  by (simp add: unpack_bytes_to_bits_def min.commute)

lemma unpack01: "set (unpack_bytes_to_bits bts e) \<subseteq> {0, 1}"
proof -
  have "set (concat (map byte_bits bts)) \<subseteq> {0, 1}"
    using byte_bits01 by auto
  moreover have "set (take n (concat (map byte_bits bts))) \<subseteq> set (concat (map byte_bits bts))" for n
    by (rule set_take_subset)
  ultimately show ?thesis
    by (cases e) (simp_all add: unpack_bytes_to_bits_def, blast)
qed

lemma unpack_packed_lsbs:
  "unpack_bytes_to_bits (packed (lsbs flat 256) 32) (Some 256) = lsbs flat 256"
  using unpack_packed [OF lsbs01, of 32 flat 256]
  by (simp add: unpack_bytes_to_bits_def)

lemma lsbs_embedded:
  assumes "k \<le> length flat" and "length bits = k" and "set bits \<subseteq> {0, 1}"
  shows "lsbs (embedded bits flat k) k = bits"
proof (rule nth_equalityI)
  show "length (lsbs (embedded bits flat k) k) = length bits"
    using assms(2) by simp
next
  fix i
  assume "i < length (lsbs (embedded bits flat k) k)"
  then have i: "i < k" by simp
  with assms have "bits ! i = 0 \<or> bits ! i = 1"
    by (auto simp add: subset_iff)
  then have "fold_rgb (set_lsb (flat ! i) (bits ! i)) AND 1 = bits ! i"
    by (rule lsb_set_lsb)
  with i assms(1) show "lsbs (embedded bits flat k) k ! i = bits ! i"
    by (simp add: nth_lsbs nth_embedded)
qed

lemma secure_image_ok:
  assumes "MIN_BYTES \<le> length data"
    and "image_bytes_to_rgb_array C data = Inr (arr, fmt)"
    and "NUM_PIXELS \<le> length (pixels arr)"
    and "length (sha256 C (tobytes arr)) = 32"
    and "rgb_array_to_image_bytes C
           (arr\<lparr>pixels := embedded (unpack_bytes_to_bits (sha256 C (tobytes arr)) (Some HASH_BITS))
              (pixels arr) NUM_PIXELS\<rparr>) fmt = Inr img"
  shows "secure_image C data = Inr (img @ packed (lsbs (pixels arr) 256) 32)"
proof -
  let ?bits = "unpack_bytes_to_bits (sha256 C (tobytes arr)) (Some HASH_BITS)"
  have "NUM_PIXELS \<le> length ?bits"
    using assms(4) by (simp add: length_unpack NUM_PIXELS_def HASH_BITS_def)
  with assms(3) have 1: "embed_bits ?bits (pixels arr)
      = Inr (embedded ?bits (pixels arr) NUM_PIXELS, lsbs (pixels arr) NUM_PIXELS)"
    by (rule embed_bits_ok)
  have 2: "pack_bits_to_bytes (lsbs (pixels arr) NUM_PIXELS) = Inr (packed (lsbs (pixels arr) 256) 32)"
    using pack_bits_ok [of "lsbs (pixels arr) 256" 32] lsbs01
    by (simp add: NUM_PIXELS_def HASH_BITS_def)
  show ?thesis
    using assms(1, 2, 5) by (simp add: secure_image_def Let_def 1 2)
qed

lemma secure_image_small_grid:
  assumes "MIN_BYTES \<le> length data"
    and "image_bytes_to_rgb_array C data = Inr (arr, fmt)"
    and "length (pixels arr) < NUM_PIXELS"
  shows "secure_image C data = Inl IndexError"
  using assms(1, 2) by (simp add: secure_image_def Let_def embed_bits_short [OF assms(3)])

lemma extract_step_Inr:
  "extract_step flat i acc = Inr acc' \<Longrightarrow> i < length flat"
  by (auto simp add: extract_step_def split: if_splits)

lemma extract_step_Inl:
  "extract_step flat i acc = Inl e \<Longrightarrow> e = IndexError"
  by (auto simp add: extract_step_def split: if_splits)

lemma extract_for_loop_Inl:
  "for_loop (extract_step flat) xs acc = Inl e \<Longrightarrow> e = IndexError"
  by (induction xs arbitrary: acc) (auto split: sum.splits dest: extract_step_Inl)

lemma extract_for_loop_Inr:
  "for_loop (extract_step flat) xs acc = Inr acc' \<Longrightarrow> i \<in> set xs \<Longrightarrow> i < length flat"
proof (induction xs arbitrary: acc)
  case Nil
  then show ?case by simp
next
  case (Cons x xs)
  from Cons.prems(1) obtain a1 where st: "extract_step flat x acc = Inr a1"
    and rest: "for_loop (extract_step flat) xs a1 = Inr acc'"
    by (auto split: sum.splits)
  from st have x: "x < length flat"
    by (rule extract_step_Inr)
  show ?case
  proof (cases "i = x")
    case True
    with x show ?thesis by simp
  next
    case False
    with Cons.prems(2) have "i \<in> set xs" by simp
    with rest show ?thesis by (rule Cons.IH)
  qed
qed

lemma extract_bits_short:
  assumes "length flat < NUM_PIXELS"
  shows "extract_bits flat = Inl IndexError"
proof (cases "extract_bits flat")
  case (Inl e)
  then have "for_loop (extract_step flat) [0..<NUM_PIXELS] [] = Inl e"
    by (simp only: extract_bits_def)
  then have "e = IndexError"
    by (rule extract_for_loop_Inl)
  with Inl show ?thesis by simp
next
  case (Inr s)
  then have "for_loop (extract_step flat) [0..<NUM_PIXELS] [] = Inr s"
    by (simp only: extract_bits_def)
  moreover have "length flat \<in> set [0..<NUM_PIXELS]"
    using assms by simp
  ultimately have "length flat < length flat"
    by (rule extract_for_loop_Inr)
  then show ?thesis by simp
qed

lemma length_trailer_bits:
  assumes "MIN_BYTES + APPENDED_BYTES \<le> length data"
  shows "length (unpack_bytes_to_bits (drop (length data - APPENDED_BYTES) data) (Some HASH_BITS))
           = NUM_PIXELS"
  using assms
  by (simp add: length_unpack MIN_BYTES_def MIN_BITS_def APPENDED_BYTES_def HASH_BITS_def
      NUM_PIXELS_def)

lemma authenticate_image_ok:
  assumes "MIN_BYTES + APPENDED_BYTES \<le> length data"
    and "image_bytes_to_rgb_array C (take (length data - APPENDED_BYTES) data) = Inr (arr, fmt)"
    and "NUM_PIXELS \<le> length (pixels arr)"
    and "restored = arr\<lparr>pixels := embedded
           (unpack_bytes_to_bits (drop (length data - APPENDED_BYTES) data) (Some HASH_BITS))
           (pixels arr) NUM_PIXELS\<rparr>"
    and "rgb_array_to_image_bytes C restored fmt = Inr restored_image_bytes"
  shows "authenticate_image C data =
           Inr (auth_result C (unpack_bytes_to_bits (sha256 C (tobytes restored)) (Some HASH_BITS))
                  (lsbs (pixels arr) NUM_PIXELS) restored_image_bytes)"
proof -
  let ?orig = "unpack_bytes_to_bits (drop (length data - APPENDED_BYTES) data) (Some HASH_BITS)"
  have 1: "extract_bits (pixels arr) = Inr (lsbs (pixels arr) NUM_PIXELS)"
    using assms(3) by (rule extract_bits_ok)
  have 2: "restore_bits ?orig (pixels arr) = Inr (embedded ?orig (pixels arr) NUM_PIXELS)"
    using assms(3) by (rule restore_bits_ok) (simp add: length_trailer_bits [OF assms(1)])
  have 3: "\<not> length data < MIN_BYTES + APPENDED_BYTES"
    using assms(1) by simp
  show ?thesis
    unfolding authenticate_image_def Let_def
    using assms(5) by (simp add: 1 2 3 assms(2) assms(4) [symmetric] auth_result_def)
qed

lemma authenticate_image_Inr:
  assumes "authenticate_image C data = Inr res"
  shows "\<exists>arr fmt restored_image_bytes.
           MIN_BYTES + APPENDED_BYTES \<le> length data
           \<and> image_bytes_to_rgb_array C (take (length data - APPENDED_BYTES) data) = Inr (arr, fmt)
           \<and> NUM_PIXELS \<le> length (pixels arr)
           \<and> rgb_array_to_image_bytes C
                (arr\<lparr>pixels := embedded
                   (unpack_bytes_to_bits (drop (length data - APPENDED_BYTES) data) (Some HASH_BITS))
                   (pixels arr) NUM_PIXELS\<rparr>) fmt = Inr restored_image_bytes
           \<and> res = auth_result C
                (unpack_bytes_to_bits (sha256 C (tobytes (arr\<lparr>pixels := embedded
                   (unpack_bytes_to_bits (drop (length data - APPENDED_BYTES) data) (Some HASH_BITS))
                   (pixels arr) NUM_PIXELS\<rparr>))) (Some HASH_BITS))
                (lsbs (pixels arr) NUM_PIXELS) restored_image_bytes"
proof -
  let ?orig = "unpack_bytes_to_bits (drop (length data - APPENDED_BYTES) data) (Some HASH_BITS)"
  have size: "MIN_BYTES + APPENDED_BYTES \<le> length data"
    using assms by (cases "length data < MIN_BYTES + APPENDED_BYTES") (simp_all add: authenticate_image_def)
  obtain arr fmt where dec:
    "image_bytes_to_rgb_array C (take (length data - APPENDED_BYTES) data) = Inr (arr, fmt)"
    using assms size
    by (cases "image_bytes_to_rgb_array C (take (length data - APPENDED_BYTES) data)")
      (auto simp add: authenticate_image_def Let_def)
  have px: "NUM_PIXELS \<le> length (pixels arr)"
  proof (rule ccontr)
    assume "\<not> NUM_PIXELS \<le> length (pixels arr)"
    then have "extract_bits (pixels arr) = Inl IndexError"
      by (intro extract_bits_short) simp
    with assms size dec show False
      by (simp add: authenticate_image_def Let_def)
  qed
  let ?restored = "arr\<lparr>pixels := embedded ?orig (pixels arr) NUM_PIXELS\<rparr>"
  have 1: "extract_bits (pixels arr) = Inr (lsbs (pixels arr) NUM_PIXELS)"
    using px by (rule extract_bits_ok)
  have 2: "restore_bits ?orig (pixels arr) = Inr (embedded ?orig (pixels arr) NUM_PIXELS)"
    using px by (rule restore_bits_ok) (simp add: length_trailer_bits [OF size])
  obtain rib where enc: "rgb_array_to_image_bytes C ?restored fmt = Inr rib"
    using assms size dec
    by (cases "rgb_array_to_image_bytes C ?restored fmt")
      (auto simp add: authenticate_image_def Let_def 1 2)
  have "authenticate_image C data =
           Inr (auth_result C (unpack_bytes_to_bits (sha256 C (tobytes ?restored)) (Some HASH_BITS))
                  (lsbs (pixels arr) NUM_PIXELS) rib)"
    using size dec px refl enc by (rule authenticate_image_ok)
  with assms have "res = auth_result C (unpack_bytes_to_bits (sha256 C (tobytes ?restored)) (Some HASH_BITS))
                  (lsbs (pixels arr) NUM_PIXELS) rib"
    by simp
  with size dec px enc show ?thesis
    by blast
qed

section \<open>Counting matches, rounding, and some concrete uploads\<close>

lemma pixels_of_bytes_replicate: "pixels_of_bytes (replicate (3 * n) x) = replicate n (x, x, x)"
  by (induction n) (simp_all add: replicate_add numeral_3_eq_3)

lemma lsbs_replicate:
  "k \<le> n \<Longrightarrow> lsbs (replicate n p) k = replicate k (fold_rgb p AND 1)"
  by (rule nth_equalityI) (simp_all add: nth_lsbs)

lemma lsbs_Cons: "lsbs (p # ps) (Suc k) = (fold_rgb p AND 1) # lsbs ps k"
  by (rule nth_equalityI) (auto simp add: nth_lsbs nth_Cons split: nat.splits)

lemma embedded_replicate:
  "embedded (replicate n d) (replicate n p) n = replicate n (set_lsb p d)"
  by (rule nth_equalityI) (simp_all add: nth_embedded)

lemma byte_bits_0: "byte_bits 0 = replicate 8 0"
  by (simp add: byte_bits_def map_replicate_const del: upt_Suc)

lemma concat_replicate_replicate: "concat (replicate n (replicate m x)) = replicate (n * m) x"
  by (induction n) (simp_all add: replicate_add)

lemma unpack_zero: "unpack_bytes_to_bits (replicate 32 0) (Some HASH_BITS) = replicate 256 0"
  by (simp add: unpack_bytes_to_bits_def byte_bits_0 concat_replicate_replicate HASH_BITS_def)

lemma set_lsb_black: "set_lsb (0, 0, 0) 0 = (0, 0, 0)" "set_lsb (0, 0, 1) 0 = (0, 0, 0)"
  by (simp_all add: unfold_fold_clear)

lemma fold_rgb_black: "fold_rgb (0, 0, 0) AND 1 = 0" "fold_rgb (0, 0, 1) AND 1 = 1"
  by (simp_all add: fold_rgb_lsb)

lemma match_count_same: "match_count xs xs = length xs"
  by (induction xs) (simp_all add: match_count_def)

lemma match_count_Cons:
  "match_count (x # xs) (y # ys) = (if x = y then Suc (match_count xs ys) else match_count xs ys)"
  by (simp add: match_count_def)

lemma match_count_le: "match_count xs ys \<le> min (length xs) (length ys)"
proof -
  have "match_count xs ys \<le> length (zip xs ys)"
    unfolding match_count_def by (rule length_filter_le)
  then show ?thesis by simp
qed

lemma match_count_full:
  "length xs = length ys \<Longrightarrow> (match_count xs ys = length ys) = (xs = ys)"
proof (induction xs ys rule: list_induct2)
  case Nil
  then show ?case by (simp add: match_count_def)
next
  case (Cons x xs y ys)
  have "match_count xs ys \<le> length ys"
    using match_count_le [of xs ys] by simp
  with Cons show ?case
    by (auto simp add: match_count_Cons)
qed

lemma match_count_nth:
  assumes "length xs = n" and "length ys = n"
  shows "match_count xs ys = length (filter (\<lambda>i. xs ! i = ys ! i) [0..<n])"
proof -
  have "zip xs ys = map (\<lambda>i. (xs ! i, ys ! i)) [0..<n]"
    using assms by (intro nth_equalityI) simp_all
  then show ?thesis
    by (simp add: match_count_def filter_map comp_def)
qed

lemma py_round2_100: "py_round2 100 = 100"
  by (simp add: py_round2_def)

lemma py_round2_upper: "py_round2 x \<le> (of_int \<lfloor>x * 100\<rfloor> + 1) / 100"
  by (simp add: py_round2_def Let_def divide_right_mono)

lemma percent_below_100:
  assumes "m < 256"
  shows "py_round2 (of_nat m / of_nat HASH_BITS * 100) < 100"
proof -
  let ?x = "of_nat m / of_nat HASH_BITS * 100 :: rat"
  have "m \<le> 255"
    using assms by simp
  then have "(of_nat m :: rat) \<le> 255"
    by (metis of_nat_le_iff of_nat_numeral)
  then have "?x * 100 < 9961"
    by (simp add: HASH_BITS_def)
  then have "\<lfloor>?x * 100\<rfloor> < 9961"
    by (simp only: floor_less_iff of_int_numeral)
  then have "\<lfloor>?x * 100\<rfloor> + 1 \<le> 9961"
    by simp
  then have "(of_int (\<lfloor>?x * 100\<rfloor> + 1) :: rat) \<le> of_int 9961"
    by (simp only: of_int_le_iff)
  then have "(of_int \<lfloor>?x * 100\<rfloor> + 1) / 100 \<le> (9961 :: rat) / 100"
    by (simp add: divide_right_mono)
  with py_round2_upper [of ?x] have "py_round2 ?x \<le> 9961 / 100"
    by (rule order_trans)
  also have "(9961 :: rat) / 100 < 100"
    by simp
  finally show ?thesis .
qed

lemma percent_255: "py_round2 (of_nat 255 / of_nat HASH_BITS * 100) = 9961 / 100"
proof -
  have s: "(of_nat 255 / of_nat HASH_BITS * 100 * 100 :: rat) = 159375 / 16"
    by (simp add: HASH_BITS_def)
  have f: "\<lfloor>(159375 :: rat) / 16\<rfloor> = 9960"
    by (rule floor_unique) simp_all
  show ?thesis
    unfolding py_round2_def Let_def s f by simp
qed

lemma raw_decode_replicate:
  assumes "3 * (unat h * unat w) \<le> n"
  shows "raw_decode (h # w # replicate n x)
           = Inr (\<lparr>shape = (unat h, unat w), pixels = replicate (unat h * unat w) (x, x, x)\<rparr>, ''RAW'')"
proof -
  have "take (3 * (unat h * unat w)) (replicate n x) = replicate (3 * (unat h * unat w)) x"
    using assms by (simp add: min_def)
  then show ?thesis
    using assms by (simp add: raw_decode_def pixels_of_bytes_replicate)
qed

lemma tobytes_replicate: "tobytes (arr\<lparr>pixels := replicate n (x, x, x)\<rparr>) = replicate (3 * n) x"
  by (induction n) (simp_all add: tobytes_def replicate_add numeral_3_eq_3)

lemma split_trailer:
  assumes "length appended = APPENDED_BYTES"
  shows "take (length (image_bytes @ appended) - APPENDED_BYTES) (image_bytes @ appended) = image_bytes"
    and "drop (length (image_bytes @ appended) - APPENDED_BYTES) (image_bytes @ appended) = appended"
  using assms by simp_all

lemma embed_step_bits:
  "embed_step bits i (flat, acc) = Inr (flat', acc') \<Longrightarrow> i < length bits"
  by (auto simp add: embed_step_def Let_def split: if_splits)

lemma embed_for_loop_bits:
  "for_loop (embed_step bits) xs (flat, acc) = Inr (flat', acc') \<Longrightarrow> i \<in> set xs
   \<Longrightarrow> i < length bits"
proof (induction xs arbitrary: flat acc)
  case Nil
  then show ?case by simp
next
  case (Cons x xs)
  from Cons.prems(1) obtain f1 a1 where st: "embed_step bits x (flat, acc) = Inr (f1, a1)"
    and rest: "for_loop (embed_step bits) xs (f1, a1) = Inr (flat', acc')"
    by (auto split: sum.splits)
  show ?case
  proof (cases "i = x")
    case True
    with st show ?thesis by (simp add: embed_step_bits)
  next
    case False
    with Cons.prems(2) have "i \<in> set xs" by simp
    with rest show ?thesis by (rule Cons.IH)
  qed
qed

lemma embed_bits_Inr:
  assumes "embed_bits bits flat = Inr (flat', original_lsb_bits)"
  shows "NUM_PIXELS \<le> length flat \<and> NUM_PIXELS \<le> length bits
         \<and> flat' = embedded bits flat NUM_PIXELS \<and> original_lsb_bits = lsbs flat NUM_PIXELS"
proof -
  have loop: "for_loop (embed_step bits) [0..<NUM_PIXELS] (flat, []) = Inr (flat', original_lsb_bits)"
    using assms by (simp only: embed_bits_def)
  have 1: "NUM_PIXELS \<le> length flat"
  proof (rule ccontr)
    assume "\<not> NUM_PIXELS \<le> length flat"
    then have "length flat \<in> set [0..<NUM_PIXELS]" by simp
    with loop have "length flat < length flat" by (rule embed_for_loop_Inr)
    then show False by simp
  qed
  have 2: "NUM_PIXELS \<le> length bits"
  proof (rule ccontr)
    assume "\<not> NUM_PIXELS \<le> length bits"
    then have "length bits \<in> set [0..<NUM_PIXELS]" by simp
    with loop have "length bits < length bits" by (rule embed_for_loop_bits)
    then show False by simp
  qed
  from embed_bits_ok [OF 1 2] assms 1 2 show ?thesis
    by simp
qed

lemma secure_small_upload:
  "secure_image raw_codec (15 # 15 # replicate 772 0) = Inl IndexError"
proof (rule secure_image_small_grid)
  show "MIN_BYTES \<le> length (15 # 15 # replicate 772 (0 :: byte))"
    by (simp add: MIN_BYTES_def MIN_BITS_def)
  show "image_bytes_to_rgb_array raw_codec (15 # 15 # replicate 772 0)
          = Inr (\<lparr>shape = (15, 15), pixels = replicate 225 (0, 0, 0)\<rparr>, ''RAW'')"
    using raw_decode_replicate [of 15 15 772 0] by (simp add: raw_codec_def)
  show "length (pixels \<lparr>shape = (15, 15), pixels = replicate 225 (0 :: byte, 0 :: byte, 0 :: byte)\<rparr>) < NUM_PIXELS"
    by (simp add: NUM_PIXELS_def HASH_BITS_def)
qed

lemma decode_black:
  "image_bytes_to_rgb_array raw_codec (16 # 16 # replicate 768 0)
     = Inr (\<lparr>shape = (16, 16), pixels = replicate 256 (0, 0, 0)\<rparr>, ''RAW'')"
  using raw_decode_replicate [of 16 16 768 0] by (simp add: raw_codec_def)

lemma encode_black:
  "rgb_array_to_image_bytes raw_codec \<lparr>shape = (16, 16), pixels = replicate 256 (0, 0, 0)\<rparr> fmt
     = Inr (16 # 16 # replicate 768 0)"
  using tobytes_replicate [where arr = "\<lparr>shape = (16, 16), pixels = []\<rparr>" and n = 256 and x = 0]
  by (simp add: raw_codec_def raw_encode_def)

lemma bits_value_ones: "bits_value 0 [1, 1, 1, 1, 1, 1, 1, 1] = 255"
  by (simp add: bits_value_def)

lemma bits_value_first_zero: "bits_value 0 [0, 1, 1, 1, 1, 1, 1, 1] = 127"
  by (simp add: bits_value_def)

lemma replicate_8: "replicate 8 x = [x, x, x, x, x, x, x, x]"
  by (simp add: numeral_eq_Suc)

lemma packed_ones:
  assumes "8 * k \<le> n"
  shows "packed (replicate n 1) k = replicate k 255"
proof (rule nth_equalityI)
  show "length (packed (replicate n 1) k) = length (replicate k (255 :: byte))"
    by simp
next
  fix q
  assume "q < length (packed (replicate n 1) k)"
  then have q: "q < k" by simp
  with assms have "8 \<le> n - 8 * q"
    by arith
  then have "take 8 (drop (8 * q) (replicate n (1 :: int))) = replicate 8 1"
    by (simp add: min_def)
  with q show "packed (replicate n 1) k ! q = replicate k 255 ! q"
    by (simp add: packed_def chunk_def replicate_8 bits_value_ones)
qed

lemma packed_zero_then_ones:
  "packed (0 # replicate 255 1) 32 = 127 # replicate 31 255"
proof (rule nth_equalityI)
  show "length (packed (0 # replicate 255 1) 32) = length (127 # replicate 31 (255 :: byte))"
    by simp
next
  fix q
  assume "q < length (packed (0 # replicate 255 1) 32)"
  then have q: "q < 32" by simp
  show "packed (0 # replicate 255 1) 32 ! q = (127 # replicate 31 255) ! q"
  proof (cases q)
    case 0
    have "take 8 (0 # replicate 255 (1 :: int)) = [0, 1, 1, 1, 1, 1, 1, 1]"
      by (simp add: numeral_eq_Suc)
    with 0 show ?thesis
      by (simp add: packed_def chunk_def bits_value_first_zero)
  next
    case (Suc m)
    have e: "8 * Suc m = Suc (8 * m + 7)"
      by simp
    have "drop (8 * Suc m) (0 # replicate 255 (1 :: int)) = replicate (255 - (8 * m + 7)) 1"
      by (simp only: e drop_Suc_Cons drop_replicate)
    moreover have "8 \<le> 255 - (8 * m + 7)"
      using q Suc by simp
    ultimately have "take 8 (drop (8 * Suc m) (0 # replicate 255 (1 :: int))) = replicate 8 1"
      by (simp add: min_def)
    with q Suc show ?thesis
      by (simp add: packed_def chunk_def replicate_8 bits_value_ones)
  qed
qed

lemma set_lsb_samples:
  "set_lsb (1, 1, 0) 0 = (1, 1, 0)" "set_lsb (1, 1, 1) 0 = (1, 1, 0)"
  "set_lsb (10, 20, 31) 0 = (10, 20, 30)"
  by (simp_all add: unfold_fold_clear)

lemma fold_rgb_samples:
  "fold_rgb (1, 1, 0) AND 1 = 0" "fold_rgb (1, 1, 1) AND 1 = 1" "fold_rgb (10, 20, 31) AND 1 = 1"
  by (simp_all add: fold_rgb_lsb)


lemma decode_mixed:
  "image_bytes_to_rgb_array raw_codec (16 # 16 # 1 # 1 # 0 # replicate 765 1)
     = Inr (\<lparr>shape = (16, 16), pixels = (1, 1, 0) # replicate 255 (1, 1, 1)\<rparr>, ''RAW'')"
  using pixels_of_bytes_replicate [of 255 "1 :: byte"]
  by (simp add: raw_codec_def raw_decode_def)

lemma embedded_zero_mixed:
  "embedded (replicate 256 0) ((1, 1, 0) # replicate 255 (1, 1, 1)) 256 = replicate 256 (1, 1, 0)"
  by (rule nth_equalityI) (auto simp add: nth_embedded nth_Cons set_lsb_samples split: nat.splits)

lemma lsbs_mixed:
  "lsbs ((1, 1, 0) # replicate 255 (1, 1, 1)) 256 = 0 # replicate 255 1"
  using lsbs_Cons [of "(1, 1, 0)" "replicate 255 (1, 1, 1)" 255]
  by (simp add: lsbs_replicate fold_rgb_samples)

lemma encode_mixed:
  "rgb_array_to_image_bytes raw_codec \<lparr>shape = (16, 16), pixels = replicate 256 (1, 1, 0)\<rparr> fmt
     = Inr (16 # 16 # concat (replicate 256 [1, 1, 0]))"
  by (simp add: raw_codec_def raw_encode_def tobytes_def)

lemma secure_mixed_upload:
  "secure_image raw_codec (16 # 16 # 1 # 1 # 0 # replicate 765 1)
     = Inr ((16 # 16 # concat (replicate 256 [1, 1, 0])) @ 127 # replicate 31 255)"
proof -
  let ?arr = "\<lparr>shape = (16, 16), pixels = (1 :: byte, 1 :: byte, 0 :: byte) # replicate 255 (1, 1, 1)\<rparr>"
  have bits: "unpack_bytes_to_bits (sha256 raw_codec (tobytes ?arr)) (Some HASH_BITS) = replicate 256 0"
    using unpack_zero by (simp add: raw_codec_def)
  have "secure_image raw_codec (16 # 16 # 1 # 1 # 0 # replicate 765 1)
          = Inr ((16 # 16 # concat (replicate 256 [1, 1, 0])) @ packed (lsbs (pixels ?arr) 256) 32)"
  proof (rule secure_image_ok)
    show "MIN_BYTES \<le> length (16 # 16 # 1 # 1 # 0 # replicate 765 (1 :: byte))"
      by (simp add: MIN_BYTES_def MIN_BITS_def)
    show "image_bytes_to_rgb_array raw_codec (16 # 16 # 1 # 1 # 0 # replicate 765 1) = Inr (?arr, ''RAW'')"
      by (rule decode_mixed)
    show "NUM_PIXELS \<le> length (pixels ?arr)"
      by (simp add: NUM_PIXELS_def HASH_BITS_def)
    show "length (sha256 raw_codec (tobytes ?arr)) = 32"
      by (simp add: raw_codec_def)
    show "rgb_array_to_image_bytes raw_codec
            (?arr\<lparr>pixels := embedded (unpack_bytes_to_bits (sha256 raw_codec (tobytes ?arr)) (Some HASH_BITS))
               (pixels ?arr) NUM_PIXELS\<rparr>) ''RAW'' = Inr (16 # 16 # concat (replicate 256 [1, 1, 0]))"
      unfolding bits using encode_mixed
      by (simp add: NUM_PIXELS_def HASH_BITS_def embedded_zero_mixed)
  qed
  then show ?thesis
    by (simp add: lsbs_mixed packed_zero_then_ones)
qed

section \<open>Securing\<close>

text \<open>
  C3. The size check of \<^verbatim>\<open>secure_image\<close> counts the bytes of the upload, not the pixels of
  the decoded image. An upload of 774 bytes that decodes to a 15 by 15 image passes the
  check, and the embedding loop then reads beyond the 225 pixels: \<^verbatim>\<open>secure_image\<close> raises
  IndexError.
\<close>

theorem secure_small_image_fails:
  "MIN_BYTES \<le> length (15 # 15 # replicate 772 (0 :: byte))
   \<and> image_bytes_to_rgb_array raw_codec (15 # 15 # replicate 772 0)
       = Inr (\<lparr>shape = (15, 15), pixels = replicate 225 (0, 0, 0)\<rparr>, ''RAW'')
   \<and> secure_image raw_codec (15 # 15 # replicate 772 0) = Inl IndexError"
  using raw_decode_replicate [of 15 15 772 0] secure_small_upload
  by (simp add: raw_codec_def MIN_BYTES_def MIN_BITS_def)

text \<open>
  C9. Whenever \<^verbatim>\<open>secure_image\<close> returns a buffer, the upload decoded to an array of at
  least 256 pixels and the buffer is the re-encoded modified image followed by a trailer
  of exactly 32 bytes, so its length is the length of the encoded image plus 32. The
  modified image is the decoded one with the digest bit in the lowest bit of each of the
  first 256 folded pixels; the recorded bits are the lowest bits of the first 256 folded
  pixels of the decoded image, in pixel order; and the trailer is these 256 bits packed
  eight to a byte, first bit highest, so that unpacking it gives them back.
\<close>

theorem secure_image_trailer:
  assumes "secure_image C data = Inr out"
  shows "\<exists>arr fmt digest_bits flat original_lsb_bits new_image_bytes appended_bytes.
           image_bytes_to_rgb_array C data = Inr (arr, fmt)
           \<and> digest_bits = unpack_bytes_to_bits (sha256 C (tobytes arr)) (Some HASH_BITS)
           \<and> 256 \<le> length (pixels arr)
           \<and> embed_bits digest_bits (pixels arr) = Inr (flat, original_lsb_bits)
           \<and> flat = map (\<lambda>i. if i < 256
                                then unfold_rgb ((fold_rgb (pixels arr ! i) AND NOT 1) OR digest_bits ! i)
                                else pixels arr ! i) [0..<length (pixels arr)]
           \<and> original_lsb_bits = map (\<lambda>i. fold_rgb (pixels arr ! i) AND 1) [0..<256]
           \<and> rgb_array_to_image_bytes C (arr\<lparr>pixels := flat\<rparr>) fmt = Inr new_image_bytes
           \<and> pack_bits_to_bytes original_lsb_bits = Inr appended_bytes
           \<and> appended_bytes
               = map (\<lambda>q. word_of_int (foldl (\<lambda>byte b. push_bit 1 byte OR b) 0
                                          (take 8 (drop (8 * q) original_lsb_bits)))) [0..<32]
           \<and> unpack_bytes_to_bits appended_bytes None = original_lsb_bits
           \<and> length appended_bytes = 32
           \<and> out = new_image_bytes @ appended_bytes
           \<and> length out = length new_image_bytes + 32"
proof -
  let ?bits = "\<lambda>arr. unpack_bytes_to_bits (sha256 C (tobytes arr)) (Some HASH_BITS)"
  have size: "\<not> length data < MIN_BYTES"
    using assms by (cases "length data < MIN_BYTES") (simp_all add: secure_image_def)
  obtain arr fmt where dec: "image_bytes_to_rgb_array C data = Inr (arr, fmt)"
    using assms size
    by (cases "image_bytes_to_rgb_array C data") (auto simp add: secure_image_def)
  obtain flat original_lsb_bits where
    emb: "embed_bits (?bits arr) (pixels arr) = Inr (flat, original_lsb_bits)"
    using assms size dec
    by (cases "embed_bits (?bits arr) (pixels arr)") (auto simp add: secure_image_def Let_def)
  obtain new_image_bytes where
    enc: "rgb_array_to_image_bytes C (arr\<lparr>pixels := flat\<rparr>) fmt = Inr new_image_bytes"
    using assms size dec emb
    by (cases "rgb_array_to_image_bytes C (arr\<lparr>pixels := flat\<rparr>) fmt")
      (auto simp add: secure_image_def Let_def)
  obtain appended_bytes where
    pck: "pack_bits_to_bytes original_lsb_bits = Inr appended_bytes"
    using assms size dec emb enc
    by (cases "pack_bits_to_bytes original_lsb_bits") (auto simp add: secure_image_def Let_def)
  have out: "out = new_image_bytes @ appended_bytes"
    using assms size dec emb enc pck by (simp add: secure_image_def Let_def)
  from embed_bits_Inr [OF emb] have px: "256 \<le> length (pixels arr)"
    and fl: "flat = embedded (?bits arr) (pixels arr) 256"
    and olsb: "original_lsb_bits = lsbs (pixels arr) 256"
    by (simp_all add: NUM_PIXELS_def HASH_BITS_def)
  have flat: "flat = map (\<lambda>i. if i < 256
                                then unfold_rgb ((fold_rgb (pixels arr ! i) AND NOT 1) OR ?bits arr ! i)
                                else pixels arr ! i) [0..<length (pixels arr)]"
    unfolding fl embedded_def set_lsb_def ..
  have bits: "original_lsb_bits = map (\<lambda>i. fold_rgb (pixels arr ! i) AND 1) [0..<256]"
    unfolding olsb lsbs_def ..
  have "pack_bits_to_bytes original_lsb_bits = Inr (packed original_lsb_bits 32)"
    using lsbs01 by (intro pack_bits_ok) (simp_all add: olsb)
  with pck have app: "appended_bytes = packed original_lsb_bits 32"
    by simp
  have app': "appended_bytes
               = map (\<lambda>q. word_of_int (foldl (\<lambda>byte b. push_bit 1 byte OR b) 0
                                          (take 8 (drop (8 * q) original_lsb_bits)))) [0..<32]"
    unfolding app packed_def chunk_def bits_value_def ..
  have un: "unpack_bytes_to_bits appended_bytes None = original_lsb_bits"
    unfolding app olsb using unpack_packed [OF lsbs01, of 32 "pixels arr" 256]
    by (simp add: unpack_bytes_to_bits_def)
  have len: "length appended_bytes = 32"
    unfolding app by (simp only: length_packed)
  have "length out = length new_image_bytes + 32"
    using out len by simp
  with dec px emb flat bits enc pck app' un len out show ?thesis
    by blast
qed

theorem secure_image_trailer_witness:
  "secure_image raw_codec ((16 :: byte) # 16 # 1 # 1 # 0 # replicate 765 1)
     = Inr (((16 :: byte) # 16 # concat (replicate 256 [1, 1, 0])) @ 127 # replicate 31 255)
   \<and> (\<exists>arr fmt digest_bits flat original_lsb_bits new_image_bytes appended_bytes.
           image_bytes_to_rgb_array raw_codec ((16 :: byte) # 16 # 1 # 1 # 0 # replicate 765 1) = Inr (arr, fmt)
           \<and> digest_bits = unpack_bytes_to_bits (sha256 raw_codec (tobytes arr)) (Some HASH_BITS)
           \<and> 256 \<le> length (pixels arr)
           \<and> embed_bits digest_bits (pixels arr) = Inr (flat, original_lsb_bits)
           \<and> flat = map (\<lambda>i. if i < 256
                                then unfold_rgb ((fold_rgb (pixels arr ! i) AND NOT 1) OR digest_bits ! i)
                                else pixels arr ! i) [0..<length (pixels arr)]
           \<and> original_lsb_bits = map (\<lambda>i. fold_rgb (pixels arr ! i) AND 1) [0..<256]
           \<and> rgb_array_to_image_bytes raw_codec (arr\<lparr>pixels := flat\<rparr>) fmt = Inr new_image_bytes
           \<and> pack_bits_to_bytes original_lsb_bits = Inr appended_bytes
           \<and> appended_bytes
               = map (\<lambda>q. word_of_int (foldl (\<lambda>byte b. push_bit 1 byte OR b) 0
                                          (take 8 (drop (8 * q) original_lsb_bits)))) [0..<32]
           \<and> unpack_bytes_to_bits appended_bytes None = original_lsb_bits
           \<and> length appended_bytes = 32
           \<and> (((16 :: byte) # 16 # concat (replicate 256 [1, 1, 0])) @ 127 # replicate 31 255) = new_image_bytes @ appended_bytes
           \<and> length (((16 :: byte) # 16 # concat (replicate 256 [1, 1, 0])) @ 127 # replicate 31 255) = length new_image_bytes + 32)"
  by (intro conjI secure_mixed_upload secure_image_trailer [OF secure_mixed_upload])

subsection \<open>Two concrete buffers for authenticate, one upload in the compressing format\<close>

lemma decode_tampered:
  "image_bytes_to_rgb_array raw_codec (16 # 16 # 0 # 0 # 1 # replicate 765 0)
     = Inr (\<lparr>shape = (16, 16), pixels = (0, 0, 1) # replicate 255 (0, 0, 0)\<rparr>, ''RAW'')"
  using pixels_of_bytes_replicate [of 255 "0 :: byte"]
  by (simp add: raw_codec_def raw_decode_def)

lemma embedded_zero_tampered:
  "embedded (replicate 256 0) ((0, 0, 1) # replicate 255 (0, 0, 0)) 256 = replicate 256 (0, 0, 0)"
  by (rule nth_equalityI) (auto simp add: nth_embedded nth_Cons set_lsb_black split: nat.splits)

lemma lsbs_tampered:
  "lsbs ((0, 0, 1) # replicate 255 (0, 0, 0)) 256 = 1 # replicate 255 0"
  using lsbs_Cons [of "(0, 0, 1)" "replicate 255 (0, 0, 0)" 255]
  by (simp add: lsbs_replicate fold_rgb_black)

lemma match_count_tampered: "match_count (replicate 256 0) (1 # replicate 255 0) = 255"
proof -
  have "replicate 256 (0 :: int) = 0 # replicate 255 0"
    by (simp add: replicate_Suc [symmetric] del: replicate_Suc)
  then show ?thesis
    by (simp add: match_count_Cons match_count_same)
qed

lemma authenticate_black:
  "authenticate_image raw_codec ((16 # 16 # replicate 768 0) @ replicate 32 0)
     = Inr \<lparr>authentic = True, message = ''Image authentic (untampered).'',
            authentication_percentage = 100, restored_image_b64 = []\<rparr>"
proof -
  let ?data = "(16 # 16 # replicate 768 0) @ replicate 32 (0 :: byte)"
  let ?arr = "\<lparr>shape = (16, 16), pixels = replicate 256 (0 :: byte, 0 :: byte, 0 :: byte)\<rparr>"
  have tr: "length (replicate 32 (0 :: byte)) = APPENDED_BYTES"
    by (simp add: APPENDED_BYTES_def HASH_BITS_def)
  note split = split_trailer [OF tr, of "16 # 16 # replicate 768 0"]
  have "authenticate_image raw_codec ?data
          = Inr (auth_result raw_codec
                   (unpack_bytes_to_bits (sha256 raw_codec (tobytes ?arr)) (Some HASH_BITS))
                   (lsbs (pixels ?arr) NUM_PIXELS) (16 # 16 # replicate 768 0))"
  proof (rule authenticate_image_ok)
    show "MIN_BYTES + APPENDED_BYTES \<le> length ?data"
      by (simp add: MIN_BYTES_def MIN_BITS_def APPENDED_BYTES_def HASH_BITS_def)
    show "image_bytes_to_rgb_array raw_codec (take (length ?data - APPENDED_BYTES) ?data)
            = Inr (?arr, ''RAW'')"
      unfolding split by (rule decode_black)
    show "NUM_PIXELS \<le> length (pixels ?arr)"
      by (simp add: NUM_PIXELS_def HASH_BITS_def)
    show "?arr = ?arr\<lparr>pixels := embedded
            (unpack_bytes_to_bits (drop (length ?data - APPENDED_BYTES) ?data) (Some HASH_BITS))
            (pixels ?arr) NUM_PIXELS\<rparr>"
      unfolding split unpack_zero
      by (simp add: NUM_PIXELS_def HASH_BITS_def embedded_replicate set_lsb_black)
    show "rgb_array_to_image_bytes raw_codec ?arr ''RAW'' = Inr (16 # 16 # replicate 768 0)"
      by (rule encode_black)
  qed
  moreover have "unpack_bytes_to_bits (sha256 raw_codec (tobytes ?arr)) (Some HASH_BITS) = replicate 256 0"
    using unpack_zero by (simp add: raw_codec_def)
  moreover have "lsbs (pixels ?arr) NUM_PIXELS = replicate 256 0"
    by (simp add: NUM_PIXELS_def HASH_BITS_def lsbs_replicate fold_rgb_black)
  ultimately show ?thesis
    by (simp add: auth_result_def match_count_same HASH_BITS_def py_round2_100 raw_codec_def)
qed

lemma authenticate_tampered:
  "authenticate_image raw_codec ((16 # 16 # 0 # 0 # 1 # replicate 765 0) @ replicate 32 0)
     = Inr \<lparr>authentic = False, message = ''Image tampered / altered.'',
            authentication_percentage = 9961 / 100, restored_image_b64 = []\<rparr>"
proof -
  let ?data = "(16 # 16 # 0 # 0 # 1 # replicate 765 0) @ replicate 32 (0 :: byte)"
  let ?arr = "\<lparr>shape = (16, 16), pixels = (0 :: byte, 0 :: byte, 1 :: byte) # replicate 255 (0, 0, 0)\<rparr>"
  let ?black = "\<lparr>shape = (16, 16), pixels = replicate 256 (0 :: byte, 0 :: byte, 0 :: byte)\<rparr>"
  have tr: "length (replicate 32 (0 :: byte)) = APPENDED_BYTES"
    by (simp add: APPENDED_BYTES_def HASH_BITS_def)
  note split = split_trailer [OF tr, of "16 # 16 # 0 # 0 # 1 # replicate 765 0"]
  have "authenticate_image raw_codec ?data
          = Inr (auth_result raw_codec
                   (unpack_bytes_to_bits (sha256 raw_codec (tobytes ?black)) (Some HASH_BITS))
                   (lsbs (pixels ?arr) NUM_PIXELS) (16 # 16 # replicate 768 0))"
  proof (rule authenticate_image_ok)
    show "MIN_BYTES + APPENDED_BYTES \<le> length ?data"
      by (simp add: MIN_BYTES_def MIN_BITS_def APPENDED_BYTES_def HASH_BITS_def)
    show "image_bytes_to_rgb_array raw_codec (take (length ?data - APPENDED_BYTES) ?data)
            = Inr (?arr, ''RAW'')"
      unfolding split by (rule decode_tampered)
    show "NUM_PIXELS \<le> length (pixels ?arr)"
      by (simp add: NUM_PIXELS_def HASH_BITS_def)
    show "?black = ?arr\<lparr>pixels := embedded
            (unpack_bytes_to_bits (drop (length ?data - APPENDED_BYTES) ?data) (Some HASH_BITS))
            (pixels ?arr) NUM_PIXELS\<rparr>"
      unfolding split unpack_zero
      by (simp add: NUM_PIXELS_def HASH_BITS_def embedded_zero_tampered)
    show "rgb_array_to_image_bytes raw_codec ?black ''RAW'' = Inr (16 # 16 # replicate 768 0)"
      by (rule encode_black)
  qed
  moreover have "unpack_bytes_to_bits (sha256 raw_codec (tobytes ?black)) (Some HASH_BITS) = replicate 256 0"
    using unpack_zero by (simp add: raw_codec_def)
  moreover have "lsbs (pixels ?arr) NUM_PIXELS = 1 # replicate 255 0"
    using lsbs_tampered by (simp add: NUM_PIXELS_def HASH_BITS_def)
  moreover have "replicate 256 (0 :: int) \<noteq> 1 # replicate 255 0"
  proof
    assume "replicate 256 (0 :: int) = 1 # replicate 255 0"
    then have "replicate 256 (0 :: int) ! 0 = (1 # replicate 255 0) ! 0"
      by (simp only:)
    then show False
      by simp
  qed
  ultimately show ?thesis
    using percent_255
    by (simp add: auth_result_def match_count_tampered raw_codec_def)
qed

lemma solid_decode_colour:
  "image_bytes_to_rgb_array solid_codec (16 # 16 # r # g # b # rest)
     = Inr (\<lparr>shape = (16, 16), pixels = replicate 256 (r, g, b)\<rparr>, ''SOLID'')"
  by (simp add: solid_codec_def solid_decode_def)

lemma solid_encode_colour:
  "rgb_array_to_image_bytes solid_codec \<lparr>shape = (16, 16), pixels = replicate 256 (r, g, b)\<rparr> fmt
     = Inr [16, 16, r, g, b]"
proof -
  have "replicate 256 (r, g, b) = (r, g, b) # replicate 255 (r, g, b)"
    by (simp add: replicate_Suc [symmetric] del: replicate_Suc)
  then show ?thesis
    by (simp add: solid_codec_def solid_encode_def)
qed

lemma secure_solid_upload:
  "secure_image solid_codec (16 # 16 # 10 # 20 # 31 # replicate 763 0)
     = Inr ([16, 16, 10, 20, 30] @ replicate 32 255)"
proof -
  let ?arr = "\<lparr>shape = (16, 16), pixels = replicate 256 (10 :: byte, 20 :: byte, 31 :: byte)\<rparr>"
  have bits: "unpack_bytes_to_bits (sha256 solid_codec (tobytes ?arr)) (Some HASH_BITS) = replicate 256 0"
    using unpack_zero by (simp add: solid_codec_def)
  have "secure_image solid_codec (16 # 16 # 10 # 20 # 31 # replicate 763 0)
          = Inr ([16, 16, 10, 20, 30] @ packed (lsbs (pixels ?arr) 256) 32)"
  proof (rule secure_image_ok)
    show "MIN_BYTES \<le> length (16 # 16 # 10 # 20 # 31 # replicate 763 (0 :: byte))"
      by (simp add: MIN_BYTES_def MIN_BITS_def)
    show "image_bytes_to_rgb_array solid_codec (16 # 16 # 10 # 20 # 31 # replicate 763 0)
            = Inr (?arr, ''SOLID'')"
      by (rule solid_decode_colour)
    show "NUM_PIXELS \<le> length (pixels ?arr)"
      by (simp add: NUM_PIXELS_def HASH_BITS_def)
    show "length (sha256 solid_codec (tobytes ?arr)) = 32"
      by (simp add: solid_codec_def)
    show "rgb_array_to_image_bytes solid_codec
            (?arr\<lparr>pixels := embedded (unpack_bytes_to_bits (sha256 solid_codec (tobytes ?arr)) (Some HASH_BITS))
               (pixels ?arr) NUM_PIXELS\<rparr>) ''SOLID'' = Inr [16, 16, 10, 20, 30]"
      unfolding bits using solid_encode_colour [of 10 20 30 "''SOLID''"]
      by (simp add: NUM_PIXELS_def HASH_BITS_def embedded_replicate set_lsb_samples)
  qed
  then show ?thesis
    by (simp add: lsbs_replicate fold_rgb_samples packed_ones)
qed

section \<open>Authenticating\<close>

lemma of_nat_256: "((of_nat m :: rat) = 256) = (m = 256)"
proof -
  have "(of_nat m :: rat) = of_nat 256 \<longleftrightarrow> m = 256"
    by (rule of_nat_eq_iff)
  then show ?thesis by simp
qed

lemma percent_100_iff: "(of_nat m / of_nat HASH_BITS * 100 :: rat) = 100 \<longleftrightarrow> m = 256"
  using of_nat_256 [of m] by (simp add: HASH_BITS_def)

lemma match_count_256:
  assumes "length ys = 256" and "length xs \<le> 256"
  shows "(xs = ys) = (match_count xs ys = 256)"
proof
  assume "xs = ys"
  with assms(1) show "match_count xs ys = 256"
    by (simp only: match_count_same)
next
  assume m: "match_count xs ys = 256"
  have "match_count xs ys \<le> length xs"
    using match_count_le [of xs ys] by simp
  with m assms have len: "length xs = length ys"
    by simp
  have "(match_count xs ys = length ys) = (xs = ys)"
    using len by (rule match_count_full)
  with m assms(1) show "xs = ys"
    by simp
qed

text \<open>
  C5, as the code has it. In every run of \<^verbatim>\<open>authenticate_image\<close> that returns (with a
  digest of 32 bytes), \<open>authentic\<close> is the equality of the 256 recomputed digest bits and
  the 256 extracted bits, decided without the percentage; and the percentage reported is
  100 * matchCount / 256 rounded to two decimals, where matchCount counts the positions
  in [0, 256) at which the two sequences agree.
\<close>

theorem authentic_is_exact_equality:
  assumes "authenticate_image C data = Inr res" and "\<forall>x. length (sha256 C x) = 32"
  shows "\<exists>arr fmt embedded_bits flat computed_bits.
           image_bytes_to_rgb_array C (take (length data - APPENDED_BYTES) data) = Inr (arr, fmt)
           \<and> extract_bits (pixels arr) = Inr embedded_bits
           \<and> restore_bits
                (unpack_bytes_to_bits (drop (length data - APPENDED_BYTES) data) (Some HASH_BITS))
                (pixels arr) = Inr flat
           \<and> computed_bits
               = unpack_bytes_to_bits (sha256 C (tobytes (arr\<lparr>pixels := flat\<rparr>))) (Some HASH_BITS)
           \<and> length computed_bits = 256
           \<and> length embedded_bits = 256
           \<and> authentic res = (computed_bits = embedded_bits)
           \<and> authentication_percentage res
               = py_round2 (100 * of_nat (length (filter (\<lambda>i. computed_bits ! i = embedded_bits ! i)
                                                     [0..<256])) / 256)"
proof -
  let ?orig = "unpack_bytes_to_bits (drop (length data - APPENDED_BYTES) data) (Some HASH_BITS)"
  from authenticate_image_Inr [OF assms(1)] obtain arr fmt restored_image_bytes where
    size: "MIN_BYTES + APPENDED_BYTES \<le> length data"
    and dec: "image_bytes_to_rgb_array C (take (length data - APPENDED_BYTES) data) = Inr (arr, fmt)"
    and px: "NUM_PIXELS \<le> length (pixels arr)"
    and res: "res = auth_result C
                (unpack_bytes_to_bits (sha256 C (tobytes (arr\<lparr>pixels :=
                   embedded ?orig (pixels arr) NUM_PIXELS\<rparr>))) (Some HASH_BITS))
                (lsbs (pixels arr) NUM_PIXELS) restored_image_bytes"
    by blast
  let ?flat = "embedded ?orig (pixels arr) NUM_PIXELS"
  let ?computed = "unpack_bytes_to_bits (sha256 C (tobytes (arr\<lparr>pixels := ?flat\<rparr>))) (Some HASH_BITS)"
  let ?embedded = "lsbs (pixels arr) NUM_PIXELS"
  have 1: "extract_bits (pixels arr) = Inr ?embedded"
    using px by (rule extract_bits_ok)
  have 2: "restore_bits ?orig (pixels arr) = Inr ?flat"
    using px by (rule restore_bits_ok) (simp add: length_trailer_bits [OF size])
  have 3: "length ?computed = 256"
    using assms(2) by (simp add: length_unpack HASH_BITS_def)
  have 4: "length ?embedded = 256"
    by (simp add: NUM_PIXELS_def HASH_BITS_def)
  have 5: "authentic res = (?computed = ?embedded)"
    by (simp add: res auth_result_def)
  have "match_count ?computed ?embedded
          = length (filter (\<lambda>i. ?computed ! i = ?embedded ! i) [0..<256])"
    using 3 4 by (rule match_count_nth)
  then have 6: "authentication_percentage res
      = py_round2 (100 * of_nat (length (filter (\<lambda>i. ?computed ! i = ?embedded ! i) [0..<256])) / 256)"
    by (simp add: res auth_result_def HASH_BITS_def)
  from dec 1 2 3 4 5 6 show ?thesis
    by blast
qed

theorem authentic_is_exact_equality_witness:
  "authenticate_image raw_codec (((16 :: byte) # 16 # 0 # 0 # 1 # replicate 765 0) @ replicate 32 0)
     = Inr \<lparr>authentic = False, message = ''Image tampered / altered.'',
            authentication_percentage = 9961 / 100, restored_image_b64 = []\<rparr>
   \<and> (\<forall>x. length (sha256 raw_codec x) = 32)
   \<and> (\<exists>arr fmt embedded_bits flat computed_bits.
           image_bytes_to_rgb_array raw_codec (take (length (((16 :: byte) # 16 # 0 # 0 # 1 # replicate 765 0) @ replicate 32 0) - APPENDED_BYTES) (((16 :: byte) # 16 # 0 # 0 # 1 # replicate 765 0) @ replicate 32 0)) = Inr (arr, fmt)
           \<and> extract_bits (pixels arr) = Inr embedded_bits
           \<and> restore_bits
                (unpack_bytes_to_bits (drop (length (((16 :: byte) # 16 # 0 # 0 # 1 # replicate 765 0) @ replicate 32 0) - APPENDED_BYTES) (((16 :: byte) # 16 # 0 # 0 # 1 # replicate 765 0) @ replicate 32 0)) (Some HASH_BITS))
                (pixels arr) = Inr flat
           \<and> computed_bits
               = unpack_bytes_to_bits (sha256 raw_codec (tobytes (arr\<lparr>pixels := flat\<rparr>))) (Some HASH_BITS)
           \<and> length computed_bits = 256
           \<and> length embedded_bits = 256
           \<and> authentic \<lparr>authentic = False, message = ''Image tampered / altered.'',
            authentication_percentage = 9961 / 100, restored_image_b64 = []\<rparr> = (computed_bits = embedded_bits)
           \<and> authentication_percentage \<lparr>authentic = False, message = ''Image tampered / altered.'',
            authentication_percentage = 9961 / 100, restored_image_b64 = []\<rparr>
               = py_round2 (100 * of_nat (length (filter (\<lambda>i. computed_bits ! i = embedded_bits ! i)
                                                     [0..<256])) / 256))"
proof -
  have sha: "\<forall>x. length (sha256 raw_codec x) = 32"
    by (simp add: raw_codec_def)
  show ?thesis
    by (intro conjI authenticate_tampered sha
        authentic_is_exact_equality [OF authenticate_tampered sha])
qed

text \<open>
  A buffer whose embedded bits differ from the recomputed digest bits in one position:
  255 of 256 positions agree, and the reported percentage is 99.61, not 100 * 255 / 256.
\<close>

theorem percentage_is_rounded_counterexample:
  "authenticate_image raw_codec ((16 # 16 # 0 # 0 # 1 # replicate 765 0) @ replicate 32 0)
     = Inr \<lparr>authentic = False, message = ''Image tampered / altered.'',
            authentication_percentage = 9961 / 100, restored_image_b64 = []\<rparr>
   \<and> extract_bits ((0, 0, 1) # replicate 255 (0, 0, 0)) = Inr (1 # replicate 255 0)
   \<and> unpack_bytes_to_bits
        (sha256 raw_codec (tobytes \<lparr>shape = (16, 16), pixels = replicate 256 (0, 0, 0)\<rparr>))
        (Some HASH_BITS) = replicate 256 0
   \<and> match_count (replicate 256 0) (1 # replicate 255 0) = 255
   \<and> (9961 / 100 :: rat) \<noteq> 100 * 255 / 256"
proof -
  have "extract_bits ((0, 0, 1) # replicate 255 (0, 0, 0)) = Inr (1 # replicate 255 0)"
    using extract_bits_ok [of "(0, 0, 1) # replicate 255 (0, 0, 0)"] lsbs_tampered
    by (simp add: NUM_PIXELS_def HASH_BITS_def)
  moreover have "unpack_bytes_to_bits
        (sha256 raw_codec (tobytes \<lparr>shape = (16, 16), pixels = replicate 256 (0, 0, 0)\<rparr>))
        (Some HASH_BITS) = replicate 256 0"
    using unpack_zero by (simp add: raw_codec_def)
  ultimately show ?thesis
    using authenticate_tampered match_count_tampered by simp
qed

text \<open>
  C10. In every run of \<^verbatim>\<open>authenticate_image\<close> that returns, the extracted sequence has
  256 bits (and so has the recomputed one when the digest has 32 bytes), and \<open>authentic\<close>
  holds exactly when all 256 positions match, exactly when the computed percentage is 100,
  and exactly when the reported percentage is 100.
\<close>

theorem authentic_iff_full_percentage:
  assumes "authenticate_image C data = Inr res"
  shows "\<exists>arr fmt embedded_bits flat computed_bits.
           image_bytes_to_rgb_array C (take (length data - APPENDED_BYTES) data) = Inr (arr, fmt)
           \<and> extract_bits (pixels arr) = Inr embedded_bits
           \<and> restore_bits
                (unpack_bytes_to_bits (drop (length data - APPENDED_BYTES) data) (Some HASH_BITS))
                (pixels arr) = Inr flat
           \<and> computed_bits
               = unpack_bytes_to_bits (sha256 C (tobytes (arr\<lparr>pixels := flat\<rparr>))) (Some HASH_BITS)
           \<and> length embedded_bits = 256
           \<and> (length (sha256 C (tobytes (arr\<lparr>pixels := flat\<rparr>))) = 32
                \<longrightarrow> length computed_bits = 256)
           \<and> (authentic res \<longleftrightarrow> match_count computed_bits embedded_bits = 256)
           \<and> (authentic res \<longleftrightarrow>
                  (of_nat (match_count computed_bits embedded_bits) / of_nat HASH_BITS * 100 :: rat) = 100)
           \<and> (authentic res \<longleftrightarrow> authentication_percentage res = 100)"
proof -
  let ?orig = "unpack_bytes_to_bits (drop (length data - APPENDED_BYTES) data) (Some HASH_BITS)"
  from authenticate_image_Inr [OF assms(1)] obtain arr fmt restored_image_bytes where
    size: "MIN_BYTES + APPENDED_BYTES \<le> length data"
    and dec: "image_bytes_to_rgb_array C (take (length data - APPENDED_BYTES) data) = Inr (arr, fmt)"
    and px: "NUM_PIXELS \<le> length (pixels arr)"
    and res: "res = auth_result C
                (unpack_bytes_to_bits (sha256 C (tobytes (arr\<lparr>pixels :=
                   embedded ?orig (pixels arr) NUM_PIXELS\<rparr>))) (Some HASH_BITS))
                (lsbs (pixels arr) NUM_PIXELS) restored_image_bytes"
    by blast
  let ?flat = "embedded ?orig (pixels arr) NUM_PIXELS"
  let ?computed = "unpack_bytes_to_bits (sha256 C (tobytes (arr\<lparr>pixels := ?flat\<rparr>))) (Some HASH_BITS)"
  let ?embedded = "lsbs (pixels arr) NUM_PIXELS"
  let ?m = "match_count ?computed ?embedded"
  have 1: "extract_bits (pixels arr) = Inr ?embedded"
    using px by (rule extract_bits_ok)
  have 2: "restore_bits ?orig (pixels arr) = Inr ?flat"
    using px by (rule restore_bits_ok) (simp add: length_trailer_bits [OF size])
  have 3: "length ?embedded = 256"
    by (simp add: NUM_PIXELS_def HASH_BITS_def)
  have 4: "length (sha256 C (tobytes (arr\<lparr>pixels := ?flat\<rparr>))) = 32 \<longrightarrow> length ?computed = 256"
    by (simp add: length_unpack HASH_BITS_def)
  have le: "length ?computed \<le> 256"
    by (simp add: length_unpack HASH_BITS_def)
  have auth: "authentic res = (?computed = ?embedded)"
    by (simp add: res auth_result_def)
  have m_le: "?m \<le> 256"
    using match_count_le [of ?computed ?embedded] 3 by simp
  have 5: "(?computed = ?embedded) \<longleftrightarrow> ?m = 256"
    using 3 le by (rule match_count_256)
  have 6: "?m = 256 \<longleftrightarrow> (of_nat ?m / of_nat HASH_BITS * 100 :: rat) = 100"
    by (simp only: percent_100_iff)
  have pct: "authentication_percentage res = py_round2 (of_nat ?m / of_nat HASH_BITS * 100)"
    by (simp add: res auth_result_def)
  have 7: "?m = 256 \<longleftrightarrow> authentication_percentage res = 100"
  proof
    assume "?m = 256"
    then show "authentication_percentage res = 100"
      by (simp add: pct HASH_BITS_def py_round2_100)
  next
    assume p: "authentication_percentage res = 100"
    show "?m = 256"
    proof (rule ccontr)
      assume "?m \<noteq> 256"
      with m_le have "?m < 256" by simp
      then have "py_round2 (of_nat ?m / of_nat HASH_BITS * 100) < 100"
        by (rule percent_below_100)
      with p pct show False by simp
    qed
  qed
  from dec 1 2 3 4 auth 5 6 7 show ?thesis
    by blast
qed

theorem authentic_iff_full_percentage_witness:
  "authenticate_image raw_codec (((16 :: byte) # 16 # replicate 768 0) @ replicate 32 0)
     = Inr \<lparr>authentic = True, message = ''Image authentic (untampered).'',
            authentication_percentage = 100, restored_image_b64 = []\<rparr>
   \<and> (\<exists>arr fmt embedded_bits flat computed_bits.
           image_bytes_to_rgb_array raw_codec (take (length (((16 :: byte) # 16 # replicate 768 0) @ replicate 32 0) - APPENDED_BYTES) (((16 :: byte) # 16 # replicate 768 0) @ replicate 32 0)) = Inr (arr, fmt)
           \<and> extract_bits (pixels arr) = Inr embedded_bits
           \<and> restore_bits
                (unpack_bytes_to_bits (drop (length (((16 :: byte) # 16 # replicate 768 0) @ replicate 32 0) - APPENDED_BYTES) (((16 :: byte) # 16 # replicate 768 0) @ replicate 32 0)) (Some HASH_BITS))
                (pixels arr) = Inr flat
           \<and> computed_bits
               = unpack_bytes_to_bits (sha256 raw_codec (tobytes (arr\<lparr>pixels := flat\<rparr>))) (Some HASH_BITS)
           \<and> length embedded_bits = 256
           \<and> (length (sha256 raw_codec (tobytes (arr\<lparr>pixels := flat\<rparr>))) = 32
                \<longrightarrow> length computed_bits = 256)
           \<and> (authentic \<lparr>authentic = True, message = ''Image authentic (untampered).'',
            authentication_percentage = 100, restored_image_b64 = []\<rparr> \<longleftrightarrow> match_count computed_bits embedded_bits = 256)
           \<and> (authentic \<lparr>authentic = True, message = ''Image authentic (untampered).'',
            authentication_percentage = 100, restored_image_b64 = []\<rparr> \<longleftrightarrow>
                  (of_nat (match_count computed_bits embedded_bits) / of_nat HASH_BITS * 100 :: rat) = 100)
           \<and> (authentic \<lparr>authentic = True, message = ''Image authentic (untampered).'',
            authentication_percentage = 100, restored_image_b64 = []\<rparr> \<longleftrightarrow> authentication_percentage \<lparr>authentic = True, message = ''Image authentic (untampered).'',
            authentication_percentage = 100, restored_image_b64 = []\<rparr> = 100))"
  by (intro conjI authenticate_black authentic_iff_full_percentage [OF authenticate_black])

section \<open>Securing, then authenticating\<close>

text \<open>
  What \<^verbatim>\<open>authenticate_image\<close> does with the buffer \<^verbatim>\<open>secure_image\<close> returned, when its size
  check lets the buffer through: if the modified array was encoded into at least 768
  bytes that decode to exactly the modified array, and the restored array can be encoded,
  the answer is \<open>authentic = True\<close> with the percentage 100.
\<close>

lemma secure_then_authenticate:
  assumes size: "MIN_BYTES \<le> length data"
    and dec: "image_bytes_to_rgb_array C data = Inr (arr, fmt)"
    and emb: "embed_bits (unpack_bytes_to_bits (sha256 C (tobytes arr)) (Some HASH_BITS)) (pixels arr)
                = Inr (flat, original_lsb_bits)"
    and enc: "rgb_array_to_image_bytes C (arr\<lparr>pixels := flat\<rparr>) fmt = Inr new_image_bytes"
    and big: "MIN_BYTES \<le> length new_image_bytes"
    and lossless: "image_bytes_to_rgb_array C new_image_bytes = Inr (arr\<lparr>pixels := flat\<rparr>, fmt')"
    and enc': "rgb_array_to_image_bytes C arr fmt' = Inr restored_image_bytes"
  shows "\<exists>out res.
           secure_image C data = Inr out
           \<and> length out = length new_image_bytes + 32
           \<and> authenticate_image C out = Inr res
           \<and> authentic res
           \<and> authentication_percentage res = 100"
proof -
  let ?bits = "unpack_bytes_to_bits (sha256 C (tobytes arr)) (Some HASH_BITS)"
  let ?lsb = "lsbs (pixels arr) NUM_PIXELS"
  let ?trailer = "packed ?lsb 32"
  let ?out = "new_image_bytes @ ?trailer"
  let ?new = "arr\<lparr>pixels := flat\<rparr>"
  from embed_bits_Inr [OF emb] have px: "NUM_PIXELS \<le> length (pixels arr)"
    and nb: "NUM_PIXELS \<le> length ?bits"
    and flat: "flat = embedded ?bits (pixels arr) NUM_PIXELS"
    and olsb: "original_lsb_bits = ?lsb"
    by simp_all
  have lb: "length ?bits = NUM_PIXELS"
    using nb by (simp add: length_unpack NUM_PIXELS_def)
  have pack: "pack_bits_to_bytes ?lsb = Inr ?trailer"
    using lsbs01 by (intro pack_bits_ok) (simp_all add: NUM_PIXELS_def HASH_BITS_def)
  have sec: "secure_image C data = Inr ?out"
    using size dec emb enc pack by (simp add: secure_image_def Let_def olsb)
  have tr: "length ?trailer = APPENDED_BYTES"
    by (simp add: APPENDED_BYTES_def HASH_BITS_def)
  note split = split_trailer [OF tr, of new_image_bytes]
  have orig: "unpack_bytes_to_bits ?trailer (Some HASH_BITS) = ?lsb"
    using unpack_packed_lsbs [of "pixels arr"] by (simp add: NUM_PIXELS_def HASH_BITS_def)
  have undo: "embedded ?lsb flat NUM_PIXELS = pixels arr"
    unfolding flat using px
  proof (rule embedded_restore)
    show "\<forall>i<NUM_PIXELS. ?bits ! i = 0 \<or> ?bits ! i = 1"
      using unpack01 nb by (rule bits_nth)
  qed
  have emb_bits: "lsbs flat NUM_PIXELS = ?bits"
    unfolding flat using px lb unpack01 by (rule lsbs_embedded)
  have restored: "arr = ?new\<lparr>pixels := embedded
      (unpack_bytes_to_bits (drop (length ?out - APPENDED_BYTES) ?out) (Some HASH_BITS))
      (pixels ?new) NUM_PIXELS\<rparr>"
    unfolding split orig by (simp add: undo)
  have "authenticate_image C ?out
          = Inr (auth_result C (unpack_bytes_to_bits (sha256 C (tobytes arr)) (Some HASH_BITS))
                   (lsbs (pixels ?new) NUM_PIXELS) restored_image_bytes)"
  proof (rule authenticate_image_ok)
    show "MIN_BYTES + APPENDED_BYTES \<le> length ?out"
      using big tr by simp
    show "image_bytes_to_rgb_array C (take (length ?out - APPENDED_BYTES) ?out) = Inr (?new, fmt')"
      unfolding split by (rule lossless)
    show "NUM_PIXELS \<le> length (pixels ?new)"
      using px by (simp add: flat)
    show "arr = ?new\<lparr>pixels := embedded
      (unpack_bytes_to_bits (drop (length ?out - APPENDED_BYTES) ?out) (Some HASH_BITS))
      (pixels ?new) NUM_PIXELS\<rparr>"
      by (rule restored)
    show "rgb_array_to_image_bytes C arr fmt' = Inr restored_image_bytes"
      by (rule enc')
  qed
  then have auth: "authenticate_image C ?out = Inr (auth_result C ?bits ?bits restored_image_bytes)"
    by (simp add: emb_bits)
  have "authentic (auth_result C ?bits ?bits restored_image_bytes)"
    by (simp add: auth_result_def)
  moreover have "match_count ?bits ?bits = 256"
    unfolding match_count_same lb by (simp add: NUM_PIXELS_def HASH_BITS_def)
  then have "of_nat (match_count ?bits ?bits) / of_nat HASH_BITS * 100 = (100 :: rat)"
    by (simp only: percent_100_iff)
  then have "authentication_percentage (auth_result C ?bits ?bits restored_image_bytes) = 100"
    by (simp add: auth_result_def py_round2_100)
  moreover have "length ?out = length new_image_bytes + 32"
    by simp
  ultimately show ?thesis
    using sec auth by blast
qed

text \<open>
  C2. Securing an image and authenticating the buffer at once does not always answer
  \<open>authentic = True\<close>: the size check of \<^verbatim>\<open>authenticate_image\<close> counts the bytes of the
  buffer, not the pixels of the image in it. An upload of 768 bytes that decodes to a 16
  by 16 image (256 pixels) is secured; the modified image is encoded into 5 bytes that
  decode to exactly the modified pixels; the secured buffer has 37 bytes, and
  \<^verbatim>\<open>authenticate_image\<close> refuses it as too small.
\<close>

theorem secured_buffer_rejected:
  "MIN_BYTES \<le> length (16 # 16 # 10 # 20 # 31 # replicate 763 (0 :: byte))
   \<and> image_bytes_to_rgb_array solid_codec (16 # 16 # 10 # 20 # 31 # replicate 763 0)
       = Inr (\<lparr>shape = (16, 16), pixels = replicate 256 (10, 20, 31)\<rparr>, ''SOLID'')
   \<and> secure_image solid_codec (16 # 16 # 10 # 20 # 31 # replicate 763 0)
       = Inr ([16, 16, 10, 20, 30] @ replicate 32 255)
   \<and> image_bytes_to_rgb_array solid_codec [16, 16, 10, 20, 30]
       = Inr (\<lparr>shape = (16, 16), pixels = replicate 256 (10, 20, 30)\<rparr>, ''SOLID'')
   \<and> authenticate_image solid_codec ([16, 16, 10, 20, 30] @ replicate 32 255)
       = Inl (HTTPException 400
           ''Image too small or lacks appended data. Must have at least 6144 bits (256 pixels).'')"
  using secure_solid_upload solid_decode_colour [of 10 20 31 "replicate 763 0"]
    solid_decode_colour [of 10 20 30 "[]"]
  by (simp add: authenticate_image_def MIN_BYTES_def MIN_BITS_def APPENDED_BYTES_def HASH_BITS_def)

end
